theory Spec2Isabelle
  imports Complex_Main "HOL-Library.Multiset" "HOL-Library.Log_Nat"
begin

section \<open>The layout arithmetic of the PowerPoint task pane\<close>

text \<open>
  The functions \<open>alignShapes\<close> and \<open>arrangeShapesInOrder\<close> of
  \<open>src/taskpane/taskpane.ts\<close> read the geometry of the shapes of a slide, compute new
  positions and assign them to the shape objects.

  The numbers of the source are JavaScript numbers, that is IEEE 754 binary64 values, and
  every operation rounds to the nearest value, ties to even. They are modelled as such,
  with the two zeros, the two infinities and NaN. The shape objects are mutable and shared
  between the arrays that hold them, so a slide is a store: the list
  \<open>slide.shapes.items\<close>, where the position of a shape in the list is the identity of the
  object. Every array of shapes of the source (\<open>selectedShapes.items\<close>, \<open>sorted\<close>,
  \<open>orderedShapes\<close>) is a list of such positions. What the functions write to the console
  is returned as a list of messages.
\<close>

subsection \<open>JavaScript numbers\<close>

text \<open>
  Every finite binary64 value is an integer multiple of the least subnormal \<open>2\<^sup>-\<^sup>1\<^sup>0\<^sup>7\<^sup>4\<close>.
  \<open>Finite m\<close> is the value \<open>m * 2\<^sup>-\<^sup>1\<^sup>0\<^sup>7\<^sup>4\<close>; \<open>Finite 0\<close> is the zero with the sign
  bit clear and \<open>NegZero\<close> the zero with the sign bit set. A magnitude \<open>n\<close> (in these
  units) is a binary64 value when it has at most 53 significant bits and is less than
  \<open>2\<^sup>2\<^sup>0\<^sup>9\<^sup>8\<close> (that is \<open>2\<^sup>1\<^sup>0\<^sup>2\<^sup>4\<close>).
\<close>

datatype double = Finite int | NegZero | PosInf | NegInf | NaN

text \<open>
  The number of bits of a natural number.
\<close>

fun bits :: "nat \<Rightarrow> nat" where
  "bits n = (if n = 0 then 0 else Suc (bits (n div 2)))"

text \<open>
  \<open>nearest_even A d\<close> is the integer nearest to \<open>A / d\<close>, the even one of the two when
  \<open>A / d\<close> is half way. \<open>round_mag A B\<close> rounds the magnitude \<open>A / B\<close> to 53 significant
  bits: below \<open>2\<^sup>5\<^sup>3\<close> units the values are one unit apart (subnormal numbers and the
  first binade of the normal ones), and a magnitude of \<open>53 + k\<close> bits is rounded to a
  multiple of \<open>2\<^sup>k\<close>.
\<close>

definition nearest_even :: "nat \<Rightarrow> nat \<Rightarrow> nat" where
  "nearest_even A d =
     (if 2 * (A mod d) < d \<or> (2 * (A mod d) = d \<and> even (A div d))
      then A div d else A div d + 1)"

definition round_mag :: "nat \<Rightarrow> nat \<Rightarrow> nat" where
  "round_mag A B =
     (let k = bits (A div B) - 53
      in nearest_even A (B * 2 ^ k) * 2 ^ k)"

text \<open>
  The rounded result with its sign: a magnitude that reaches \<open>2\<^sup>1\<^sup>0\<^sup>2\<^sup>4\<close> overflows to an
  infinity, one that rounds to nothing gives a zero of the sign of the exact result.
\<close>

definition round_double :: "bool \<Rightarrow> nat \<Rightarrow> nat \<Rightarrow> double" where
  "round_double neg A B =
     (let r = round_mag A B
      in if 2 ^ 2098 \<le> r then (if neg then NegInf else PosInf)
         else if r = 0 then (if neg then NegZero else Finite 0)
         else Finite (if neg then - int r else int r))"

fun is_nan :: "double \<Rightarrow> bool" where
  "is_nan NaN = True"
| "is_nan x = False"

fun is_inf :: "double \<Rightarrow> bool" where
  "is_inf PosInf = True"
| "is_inf NegInf = True"
| "is_inf x = False"

fun is_zero :: "double \<Rightarrow> bool" where
  "is_zero (Finite m) = (m = 0)"
| "is_zero NegZero = True"
| "is_zero x = False"

fun sign_bit :: "double \<Rightarrow> bool" where
  "sign_bit (Finite m) = (m < 0)"
| "sign_bit NegZero = True"
| "sign_bit NegInf = True"
| "sign_bit x = False"

text \<open>
  The value of a finite number in units of \<open>2\<^sup>-\<^sup>1\<^sup>0\<^sup>7\<^sup>4\<close>, its magnitude, and its value as
  a real number.
\<close>

fun ival :: "double \<Rightarrow> int" where
  "ival (Finite m) = m"
| "ival x = 0"

definition mag :: "double \<Rightarrow> nat" where
  "mag x = nat \<bar>ival x\<bar>"

definition rval :: "double \<Rightarrow> real" where
  "rval x = real_of_int (ival x) / 2 ^ 1074"

definition dfinite :: "double \<Rightarrow> bool" where
  "dfinite x = (\<not> is_nan x \<and> \<not> is_inf x)"

text \<open>
  The operators \<open>-x\<close>, \<open>x + y\<close>, \<open>x - y\<close>, \<open>x * y\<close> and \<open>x / y\<close> of the language.
\<close>

fun dneg :: "double \<Rightarrow> double" where
  "dneg (Finite m) = (if m = 0 then NegZero else Finite (- m))"
| "dneg NegZero = Finite 0"
| "dneg PosInf = NegInf"
| "dneg NegInf = PosInf"
| "dneg NaN = NaN"

definition dadd :: "double \<Rightarrow> double \<Rightarrow> double" where
  "dadd x y =
     (if is_nan x \<or> is_nan y then NaN
      else if is_inf x \<and> is_inf y then (if sign_bit x = sign_bit y then x else NaN)
      else if is_inf x then x
      else if is_inf y then y
      else if is_zero x \<and> is_zero y
        then (if sign_bit x \<and> sign_bit y then NegZero else Finite 0)
      else let m = ival x + ival y
           in if m = 0 then Finite 0 else round_double (m < 0) (nat \<bar>m\<bar>) 1)"

definition dsub :: "double \<Rightarrow> double \<Rightarrow> double" where
  "dsub x y = dadd x (dneg y)"

definition dmul :: "double \<Rightarrow> double \<Rightarrow> double" where
  "dmul x y =
     (if is_nan x \<or> is_nan y then NaN
      else if (is_inf x \<and> is_zero y) \<or> (is_zero x \<and> is_inf y) then NaN
      else let neg = (sign_bit x \<noteq> sign_bit y)
           in if is_inf x \<or> is_inf y then (if neg then NegInf else PosInf)
              else round_double neg (mag x * mag y) (2 ^ 1074))"

definition ddiv :: "double \<Rightarrow> double \<Rightarrow> double" where
  "ddiv x y =
     (if is_nan x \<or> is_nan y then NaN
      else if (is_inf x \<and> is_inf y) \<or> (is_zero x \<and> is_zero y) then NaN
      else let neg = (sign_bit x \<noteq> sign_bit y)
           in if is_inf x \<or> is_zero y then (if neg then NegInf else PosInf)
              else if is_inf y then (if neg then NegZero else Finite 0)
              else round_double neg (mag x * 2 ^ 1074) (mag y))"

text \<open>
  The comparisons \<open>x > 0\<close> and \<open>x <= y\<close>: both are false when an operand is NaN, and the
  two zeros compare equal.
\<close>

fun dpos :: "double \<Rightarrow> bool" where
  "dpos (Finite m) = (0 < m)"
| "dpos PosInf = True"
| "dpos x = False"

fun dle :: "double \<Rightarrow> double \<Rightarrow> bool" where
  "dle NaN y = False"
| "dle x NaN = False"
| "dle NegInf y = True"
| "dle x PosInf = True"
| "dle PosInf y = False"
| "dle x NegInf = False"
| "dle x y = (ival x \<le> ival y)"

text \<open>
  Numbers written in the source or obtained from a length: \<open>dnat n\<close> is the natural number
  \<open>n\<close> (a length of an array is below \<open>2\<^sup>3\<^sup>2\<close>, and every natural number below \<open>2\<^sup>5\<^sup>3\<close>
  is a binary64 value). \<open>dbl m e\<close> is \<open>m * 2\<^sup>e\<close>, for \<open>e\<close> from \<open>-1074\<close>.
\<close>

definition dnat :: "nat \<Rightarrow> double" where
  "dnat n = Finite (int n * 2 ^ 1074)"

definition dbl :: "int \<Rightarrow> int \<Rightarrow> double" where
  "dbl m e = Finite (m * 2 ^ nat (e + 1074))"

subsection \<open>Data\<close>

text \<open>
  The interface \<open>ShapeInfo\<close>. The fields \<open>id\<close> and \<open>top\<close> of the source are named
  \<open>id_s\<close> and \<open>top_s\<close> here, \<open>id\<close> and \<open>top\<close> being constants of HOL.
\<close>

record shape =
  id_s :: string
  left :: double
  top_s :: double
  width :: double
  height :: double

type_synonym slide = "shape list"

text \<open>
  Console output. A fixed text is \<open>Log\<close>; the template strings of the source keep their
  parameters: \<open>LogArranging n a\<close> is
  \<^verbatim>\<open>Arranging ${shapeIds.length} shapes with alignment: ${alignment}\<close>,
  \<open>LogShapeOrder ids\<close> is \<^verbatim>\<open>console.log("Shape order:", shapeIds)\<close> and
  \<open>WarnNotFound k\<close> is \<^verbatim>\<open>console.warn(`Shape with id ${id} not found`)\<close>.
\<close>

datatype message =
    Log string
  | LogArranging nat string
  | LogShapeOrder "string list"
  | WarnNotFound string

subsection \<open>Array primitives\<close>

text \<open>
  \<open>Array.prototype.sort\<close> with a comparison function: \<open>x\<close> goes after \<open>y\<close> when the
  comparator gives a number greater than zero, and the sort is stable. An element is put
  before the first element it does not go after; the elements are inserted from the last to
  the first, so that elements that compare equal keep the order of the input. The
  comparator of the source, a difference of two numbers, is consistent when no number is
  NaN; for an inconsistent comparator the language leaves the order to the implementation.
\<close>

fun insert_cmp :: "('a \<Rightarrow> 'a \<Rightarrow> double) \<Rightarrow> 'a \<Rightarrow> 'a list \<Rightarrow> 'a list" where
  "insert_cmp cmp x [] = [x]"
| "insert_cmp cmp x (y # ys) =
     (if dpos (cmp x y) then y # insert_cmp cmp x ys else x # y # ys)"

definition sort_cmp :: "('a \<Rightarrow> 'a \<Rightarrow> double) \<Rightarrow> 'a list \<Rightarrow> 'a list" where
  "sort_cmp cmp xs = foldr (insert_cmp cmp) xs []"

subsection \<open>Assigning positions: one function for each loop\<close>

text \<open>
  \<^verbatim>\<open>for (const shape of shapes) { shape.left = avgCenterX - shape.width / 2; }\<close>
\<close>

fun center_left_loop :: "double \<Rightarrow> nat list \<Rightarrow> slide \<Rightarrow> slide" where
  "center_left_loop avgCenterX [] s = s"
| "center_left_loop avgCenterX (i # shapes) s =
     center_left_loop avgCenterX shapes
       (s[i := (s ! i)\<lparr>left := dsub avgCenterX (ddiv (width (s ! i)) (dnat 2))\<rparr>])"

text \<open>
  \<^verbatim>\<open>for (const shape of shapes) { shape.top = avgCenterY - shape.height / 2; }\<close>
\<close>

fun center_top_loop :: "double \<Rightarrow> nat list \<Rightarrow> slide \<Rightarrow> slide" where
  "center_top_loop avgCenterY [] s = s"
| "center_top_loop avgCenterY (i # shapes) s =
     center_top_loop avgCenterY shapes
       (s[i := (s ! i)\<lparr>top_s := dsub avgCenterY (ddiv (height (s ! i)) (dnat 2))\<rparr>])"

text \<open>
  Each loop of \<open>alignShapes\<close> over \<open>sorted\<close>:
  \<^verbatim>\<open>shape.left = currentLeft; currentLeft += shape.width + gap;\<close> and
  \<^verbatim>\<open>shape.top = currentTop; currentTop += shape.height + gap;\<close>
\<close>

fun distribute_left_loop :: "double \<Rightarrow> nat list \<Rightarrow> double \<Rightarrow> slide \<Rightarrow> slide" where
  "distribute_left_loop gap [] currentLeft s = s"
| "distribute_left_loop gap (i # sortedShapes) currentLeft s =
     (let s1 = s[i := (s ! i)\<lparr>left := currentLeft\<rparr>]
      in distribute_left_loop gap sortedShapes
           (dadd currentLeft (dadd (width (s1 ! i)) gap)) s1)"

fun distribute_top_loop :: "double \<Rightarrow> nat list \<Rightarrow> double \<Rightarrow> slide \<Rightarrow> slide" where
  "distribute_top_loop gap [] currentTop s = s"
| "distribute_top_loop gap (i # sortedShapes) currentTop s =
     (let s1 = s[i := (s ! i)\<lparr>top_s := currentTop\<rparr>]
      in distribute_top_loop gap sortedShapes
           (dadd currentTop (dadd (height (s1 ! i)) gap)) s1)"

text \<open>
  Each loop of \<open>arrangeShapesInOrder\<close> over \<open>orderedShapes\<close>, which also aligns on the
  other axis:
  \<^verbatim>\<open>shape.left = currentLeft; shape.top = avgCenterY - shape.height / 2;
  currentLeft += shape.width + gap;\<close> and
  \<^verbatim>\<open>shape.top = currentTop; shape.left = avgCenterX - shape.width / 2;
  currentTop += shape.height + gap;\<close>
\<close>

fun arrange_left_loop :: "double \<Rightarrow> double \<Rightarrow> nat list \<Rightarrow> double \<Rightarrow> slide \<Rightarrow> slide" where
  "arrange_left_loop gap avgCenterY [] currentLeft s = s"
| "arrange_left_loop gap avgCenterY (i # orderedShapes) currentLeft s =
     (let s1 = s[i := (s ! i)\<lparr>left := currentLeft\<rparr>];
          s2 = s1[i := (s1 ! i)\<lparr>top_s := dsub avgCenterY (ddiv (height (s1 ! i)) (dnat 2))\<rparr>]
      in arrange_left_loop gap avgCenterY orderedShapes
           (dadd currentLeft (dadd (width (s2 ! i)) gap)) s2)"

fun arrange_top_loop :: "double \<Rightarrow> double \<Rightarrow> nat list \<Rightarrow> double \<Rightarrow> slide \<Rightarrow> slide" where
  "arrange_top_loop gap avgCenterX [] currentTop s = s"
| "arrange_top_loop gap avgCenterX (i # orderedShapes) currentTop s =
     (let s1 = s[i := (s ! i)\<lparr>top_s := currentTop\<rparr>];
          s2 = s1[i := (s1 ! i)\<lparr>left := dsub avgCenterX (ddiv (width (s1 ! i)) (dnat 2))\<rparr>]
      in arrange_top_loop gap avgCenterX orderedShapes
           (dadd currentTop (dadd (height (s2 ! i)) gap)) s2)"

subsection \<open>The reductions\<close>

text \<open>
  \<^verbatim>\<open>shapes.reduce((sum, s) => sum + s.left + s.width / 2, 0)\<close>,
  \<^verbatim>\<open>shapes.reduce((sum, s) => sum + s.top + s.height / 2, 0)\<close>,
  \<^verbatim>\<open>shapes.reduce((sum, s) => sum + s.width, 0)\<close> and
  \<^verbatim>\<open>shapes.reduce((sum, s) => sum + s.height, 0)\<close>:
  the sum runs from the first element to the last, and \<open>sum + a + b\<close> is \<open>(sum + a) + b\<close>.
\<close>

definition sumCenterX :: "slide \<Rightarrow> nat list \<Rightarrow> double" where
  "sumCenterX s shapes =
     foldl (\<lambda>sum i. dadd (dadd sum (left (s ! i))) (ddiv (width (s ! i)) (dnat 2)))
       (dnat 0) shapes"

definition sumCenterY :: "slide \<Rightarrow> nat list \<Rightarrow> double" where
  "sumCenterY s shapes =
     foldl (\<lambda>sum i. dadd (dadd sum (top_s (s ! i))) (ddiv (height (s ! i)) (dnat 2)))
       (dnat 0) shapes"

definition totalShapeWidth :: "slide \<Rightarrow> nat list \<Rightarrow> double" where
  "totalShapeWidth s shapes = foldl (\<lambda>sum i. dadd sum (width (s ! i))) (dnat 0) shapes"

definition totalShapeHeight :: "slide \<Rightarrow> nat list \<Rightarrow> double" where
  "totalShapeHeight s shapes = foldl (\<lambda>sum i. dadd sum (height (s ! i))) (dnat 0) shapes"

subsection \<open>alignShapes\<close>

text \<open>
  The constants of the source: \<open>slideWidth = 960\<close>, \<open>slideHeight = 540\<close>, \<open>margin = 40\<close>.
\<close>

definition slideWidth :: double where "slideWidth = dnat 960"
definition slideHeight :: double where "slideHeight = dnat 540"
definition margin :: double where "margin = dnat 40"

text \<open>
  The branches of \<open>alignShapes\<close> after the test of the number of shapes (lines 68 to 110).
  \<open>shapes\<close> is \<open>selectedShapes.items\<close>. A string that is none of the four leaves the slide
  as it is: the chain of \<open>if\<close> has no final \<open>else\<close>.
\<close>

definition align_positions :: "string \<Rightarrow> nat list \<Rightarrow> slide \<Rightarrow> slide" where
  "align_positions alignmentType shapes s =
     (if alignmentType = ''horizontal_center'' then
        (let avgCenterX = ddiv (sumCenterX s shapes) (dnat (length shapes))
         in center_left_loop avgCenterX shapes s)
      else if alignmentType = ''vertical_center'' then
        (let avgCenterY = ddiv (sumCenterY s shapes) (dnat (length shapes))
         in center_top_loop avgCenterY shapes s)
      else if alignmentType = ''horizontal_distribute'' then
        (let availableWidth = dsub slideWidth (dmul (dnat 2) margin);
             gap = ddiv (dsub availableWidth (totalShapeWidth s shapes))
                     (dsub (dnat (length shapes)) (dnat 1));
             sortedShapes = sort_cmp (\<lambda>a b. dsub (left (s ! a)) (left (s ! b))) shapes
         in distribute_left_loop gap sortedShapes margin s)
      else if alignmentType = ''vertical_distribute'' then
        (let availableHeight = dsub slideHeight (dmul (dnat 2) margin);
             gap = ddiv (dsub availableHeight (totalShapeHeight s shapes))
                     (dsub (dnat (length shapes)) (dnat 1));
             sortedShapes = sort_cmp (\<lambda>a b. dsub (top_s (s ! a)) (top_s (s ! b))) shapes
         in distribute_top_loop gap sortedShapes margin s)
      else s)"

text \<open>
  \<open>alignShapes alignmentType items s\<close>: \<open>items\<close> is the selection the host returns for
  \<open>getSelectedShapes()\<close>, \<open>s\<close> the shapes of the slide. The result is the console output and
  the slide after \<open>context.sync()\<close>.
\<close>

definition alignShapes :: "string \<Rightarrow> nat list \<Rightarrow> slide \<Rightarrow> message list \<times> slide" where
  "alignShapes alignmentType items s =
     (if length items < 2 then ([Log ''Need at least 2 shapes to align''], s)
      else ([], align_positions alignmentType items s))"

text \<open>
  The selection of the host: distinct shape objects of the slide.
\<close>

definition selection_of :: "slide \<Rightarrow> nat list \<Rightarrow> bool" where
  "selection_of s items = (distinct items \<and> list_all (\<lambda>i. i < length s) items)"

subsection \<open>arrangeShapesInOrder\<close>

text \<open>
  \<^verbatim>\<open>for (const shape of allShapes.items) { shapeMap.set(shape.id, shape); }\<close>:
  a later shape with the same id replaces an earlier one.
\<close>

definition shapeMap :: "slide \<Rightarrow> (string \<rightharpoonup> nat)" where
  "shapeMap s = fold (\<lambda>i m. m(id_s (s ! i) \<mapsto> i)) [0..<length s] Map.empty"

text \<open>
  The loop over \<open>shapeIds\<close> (lines 308 to 316): the shapes found, in the order of the
  identifiers, and a warning for each identifier that is not found.
\<close>

fun resolve_order :: "(string \<rightharpoonup> nat) \<Rightarrow> string list \<Rightarrow> nat list \<times> message list" where
  "resolve_order m [] = ([], [])"
| "resolve_order m (k # shapeIds) =
     (let (orderedShapes, warnings) = resolve_order m shapeIds
      in case m k of
           Some shape \<Rightarrow> (shape # orderedShapes, warnings)
         | None \<Rightarrow> (orderedShapes, WarnNotFound k # warnings))"

definition orderedShapes_of :: "slide \<Rightarrow> string list \<Rightarrow> nat list" where
  "orderedShapes_of s shapeIds = fst (resolve_order (shapeMap s) shapeIds)"

text \<open>
  The branches of \<open>arrangeShapesInOrder\<close> after the test of the number of shapes
  (lines 323 to 371).
\<close>

definition arrange_positions :: "string \<Rightarrow> nat list \<Rightarrow> slide \<Rightarrow> slide" where
  "arrange_positions alignment orderedShapes s =
     (let avgCenterY = ddiv (sumCenterY s orderedShapes) (dnat (length orderedShapes))
      in if alignment = ''horizontal_distribute'' then
           (let availableWidth = dsub slideWidth (dmul (dnat 2) margin);
                gap = ddiv (dsub availableWidth (totalShapeWidth s orderedShapes))
                        (dsub (dnat (length orderedShapes)) (dnat 1))
            in arrange_left_loop gap avgCenterY orderedShapes margin s)
         else if alignment = ''vertical_distribute'' then
           (let availableHeight = dsub slideHeight (dmul (dnat 2) margin);
                gap = ddiv (dsub availableHeight (totalShapeHeight s orderedShapes))
                        (dsub (dnat (length orderedShapes)) (dnat 1));
                avgCenterX = ddiv (sumCenterX s orderedShapes) (dnat (length orderedShapes))
            in arrange_top_loop gap avgCenterX orderedShapes margin s)
         else if alignment = ''horizontal_center'' then
           (let avgCenterX = ddiv (sumCenterX s orderedShapes) (dnat (length orderedShapes))
            in center_left_loop avgCenterX orderedShapes s)
         else if alignment = ''vertical_center'' then
           center_top_loop avgCenterY orderedShapes s
         else s)"

definition arrangeShapesInOrder :: "string list \<Rightarrow> string \<Rightarrow> slide \<Rightarrow> message list \<times> slide" where
  "arrangeShapesInOrder shapeIds alignment s =
     (let (orderedShapes, warnings) = resolve_order (shapeMap s) shapeIds;
          console = [LogArranging (length shapeIds) alignment, LogShapeOrder shapeIds] @ warnings
      in if length orderedShapes < 2
         then (console @ [Log ''Need at least 2 shapes to arrange''], s)
         else (console @ [Log ''Arrangement complete''],
               arrange_positions alignment orderedShapes s))"

subsection \<open>Warnings on the console\<close>

text \<open>
  The messages written with \<open>console.warn\<close>.
\<close>

fun is_warning :: "message \<Rightarrow> bool" where
  "is_warning (WarnNotFound k) = True"
| "is_warning m = False"

subsection \<open>The positions of a distribution\<close>

text \<open>
  The values \<open>currentLeft\<close> (or \<open>currentTop\<close>) takes: \<open>slot_after gap ws start\<close> is its
  value after shapes of the sizes \<open>ws\<close> have been placed, from \<open>start\<close>.
\<close>

definition slot_after :: "double \<Rightarrow> double list \<Rightarrow> double \<Rightarrow> double" where
  "slot_after gap ws start = foldl (\<lambda>cur w. dadd cur (dadd w gap)) start ws"

subsection \<open>Example slides\<close>

text \<open>
  Two squares of side 10, one at the origin and one at (100, 100).
\<close>

definition two_apart :: slide where
  "two_apart =
     [\<lparr>id_s = ''a'', left = dnat 0, top_s = dnat 0, width = dnat 10, height = dnat 10\<rparr>,
      \<lparr>id_s = ''b'', left = dnat 100, top_s = dnat 100, width = dnat 10, height = dnat 10\<rparr>]"

text \<open>
  The three squares of the example of the specification, and a small square beside a
  banner wider than the space between the margins.
\<close>

definition three_boxes :: slide where
  "three_boxes =
     [\<lparr>id_s = ''A'', left = dnat 500, top_s = dnat 0, width = dnat 50, height = dnat 50\<rparr>,
      \<lparr>id_s = ''B'', left = dnat 10, top_s = dnat 0, width = dnat 50, height = dnat 50\<rparr>,
      \<lparr>id_s = ''C'', left = dnat 250, top_s = dnat 0, width = dnat 50, height = dnat 50\<rparr>]"

definition banner_pair :: slide where
  "banner_pair =
     [\<lparr>id_s = ''a'', left = dnat 100, top_s = dnat 0, width = dnat 10, height = dnat 10\<rparr>,
      \<lparr>id_s = ''b'', left = dnat 300, top_s = dnat 20, width = dnat 900, height = dnat 30\<rparr>]"

text \<open>
  Three squares whose centres have the mean 11 / 3, which is not a binary64 value.
\<close>

definition thirds :: slide where
  "thirds =
     [\<lparr>id_s = ''a'', left = dnat 0, top_s = dnat 0, width = dnat 2, height = dnat 2\<rparr>,
      \<lparr>id_s = ''b'', left = dnat 1, top_s = dnat 1, width = dnat 16, height = dnat 16\<rparr>,
      \<lparr>id_s = ''c'', left = dnat 0, top_s = dnat 0, width = dnat 2, height = dnat 2\<rparr>]"

text \<open>
  Four shapes of widths 32, 84, 186 and 114, from left to right: the gap is 464 / 3.
\<close>

definition four_wide :: slide where
  "four_wide =
     [\<lparr>id_s = ''p'', left = dnat 0, top_s = dnat 0, width = dnat 32, height = dnat 10\<rparr>,
      \<lparr>id_s = ''q'', left = dnat 100, top_s = dnat 0, width = dnat 84, height = dnat 10\<rparr>,
      \<lparr>id_s = ''r'', left = dnat 200, top_s = dnat 0, width = dnat 186, height = dnat 10\<rparr>,
      \<lparr>id_s = ''t'', left = dnat 400, top_s = dnat 0, width = dnat 114, height = dnat 10\<rparr>]"


subsection \<open>Values of the format\<close>

text \<open>
  \<open>dvalid x\<close>: the magnitude of \<open>x\<close> is one the format has, that is, rounding leaves it
  as it is and it is below the overflow threshold.
\<close>

definition dvalid :: "double \<Rightarrow> bool" where
  "dvalid x = (round_mag (mag x) 1 = mag x \<and> mag x < 2 ^ 2098)"

section \<open>Rounding\<close>

declare bits.simps [simp del]

lemma bits_floorlog: "bits n = floorlog 2 n"
proof (induction n rule: bits.induct)
  case (1 n)
  show ?case
  proof (cases "n = 0")
    case True
    then show ?thesis by (simp add: bits.simps floorlog_def)
  next
    case False
    with 1 show ?thesis
      by (subst bits.simps, subst compute_floorlog) simp
  qed
qed

lemma bits_0 [simp]: "bits 0 = 0"
  by (simp add: bits.simps)

lemma bits_bounds: "0 < n \<Longrightarrow> 2 ^ (bits n - 1) \<le> n \<and> n < 2 ^ bits n"
  using floorlog_bounds [of n 2] by (simp add: bits_floorlog)

lemma bits_le_iff: "bits n \<le> w \<longleftrightarrow> n < 2 ^ w"
  by (simp add: bits_floorlog floorlog_le_iff)

lemma bits_mult_pow2: "0 < n \<Longrightarrow> bits (n * 2 ^ j) = bits n + j"
  by (simp add: bits_floorlog)

lemma bits_mono: "m \<le> n \<Longrightarrow> bits m \<le> bits n"
  by (simp add: bits_floorlog floorlog_mono)

lemma bits_ge_iff: "0 < w \<Longrightarrow> w \<le> bits n \<longleftrightarrow> 2 ^ (w - 1) \<le> n"
  using bits_le_iff [of n "w - 1"] by (cases w) (auto simp: not_less)

lemma round_mag_alt:
  "round_mag A B = nearest_even A (B * 2 ^ (bits (A div B) - 53)) * 2 ^ (bits (A div B) - 53)"
  by (simp add: round_mag_def Let_def)

lemma nearest_even_scale: "0 < c \<Longrightarrow> nearest_even (A * c) (d * c) = nearest_even A d"
  by (simp add: nearest_even_def mult.assoc [symmetric] mult.commute [of 2])

lemma nearest_even_bounds: "0 < d \<Longrightarrow> A div d \<le> nearest_even A d \<and> nearest_even A d \<le> A div d + 1"
  by (simp add: nearest_even_def)

lemma nearest_even_dvd: "d dvd A \<Longrightarrow> 0 < d \<Longrightarrow> nearest_even A d = A div d"
  by (auto simp: nearest_even_def)

lemma round_mag_cancel: "0 < c \<Longrightarrow> round_mag (A * c) (B * c) = round_mag A B"
  using nearest_even_scale [of c A "B * 2 ^ (bits (A div B) - 53)"]
  by (simp add: round_mag_alt mult.assoc mult.left_commute [of c] mult.commute [of c])

lemma bits_div_scale:
  assumes "0 < B" "0 < A div B"
  shows "bits ((A * 2 ^ j) div B) = bits (A div B) + j"
proof -
  let ?t = "A div B"
  have lo: "?t * 2 ^ j \<le> (A * 2 ^ j) div B"
    using assms(1) by (metis div_mult2_eq div_mult_mult2 div_times_less_eq_dividend mult_is_0)
  have "A < (?t + 1) * B"
    using assms(1) div_less_iff_less_mult less_add_one by blast
  then have "A * 2 ^ j < (?t + 1) * B * 2 ^ j"
    by simp
  then have "A * 2 ^ j < (?t + 1) * 2 ^ j * B"
    by (simp only: mult.assoc mult.commute [of B])
  then have hi: "(A * 2 ^ j) div B < (?t + 1) * 2 ^ j"
    using assms(1) by (simp add: less_mult_imp_div_less)
  have "?t + 1 \<le> 2 ^ bits ?t"
    using bits_bounds [OF assms(2)] by simp
  then have "(?t + 1) * 2 ^ j \<le> 2 ^ bits ?t * 2 ^ j"
    by (rule mult_le_mono1)
  then have "(?t + 1) * 2 ^ j \<le> 2 ^ (bits ?t + j)"
    by (simp only: power_add)
  with hi have "(A * 2 ^ j) div B < 2 ^ (bits ?t + j)" by simp
  then have "bits ((A * 2 ^ j) div B) \<le> bits ?t + j"
    by (simp add: bits_le_iff)
  moreover have "bits ?t + j \<le> bits ((A * 2 ^ j) div B)"
    using bits_mono [OF lo] bits_mult_pow2 [OF assms(2), of j] by simp
  ultimately show ?thesis by simp
qed

lemma round_mag_zero [simp]: "0 < B \<Longrightarrow> round_mag 0 B = 0"
  by (simp add: round_mag_alt nearest_even_def)

lemma round_mag_scale_big:
  assumes B: "0 < B" and big: "2 ^ 52 \<le> A div B"
  shows "round_mag (A * 2 ^ j) B = round_mag A B * 2 ^ j"
proof -
  let ?t = "A div B"
  have "(0::nat) < 2 ^ 52" by simp
  with big have t: "0 < ?t" by linarith
  have b: "53 \<le> bits ?t" using big by (simp add: bits_ge_iff)
  have bs: "bits ((A * 2 ^ j) div B) = bits ?t + j"
    using B t by (rule bits_div_scale)
  have k: "bits ((A * 2 ^ j) div B) - 53 = (bits ?t - 53) + j"
    using b bs by simp
  have "nearest_even (A * 2 ^ j) (B * 2 ^ (bits ?t - 53 + j))
      = nearest_even (A * 2 ^ j) (B * 2 ^ (bits ?t - 53) * 2 ^ j)"
    by (simp add: power_add mult.assoc)
  also have "\<dots> = nearest_even A (B * 2 ^ (bits ?t - 53))"
    by (rule nearest_even_scale) simp
  finally show ?thesis
    by (simp add: round_mag_alt k power_add mult.assoc)
qed

lemma round_mag_fix:
  assumes "2 ^ (bits n - 53) dvd n"
  shows "round_mag n 1 = n"
  using assms by (simp add: round_mag_alt nearest_even_dvd del: One_nat_def)

lemma round_mag_small: "n < 2 ^ 53 \<Longrightarrow> round_mag n 1 = n"
proof -
  assume "n < 2 ^ 53"
  then have "bits n \<le> 53" by (simp add: bits_le_iff)
  then have "2 ^ (bits n - 53) dvd n" by simp
  then show ?thesis by (rule round_mag_fix)
qed

lemma round_mag_scale_int:
  "round_mag (n * 2 ^ j) 1 = round_mag n 1 * 2 ^ j"
proof (cases "2 ^ 52 \<le> n")
  case True
  then show ?thesis using round_mag_scale_big [of 1 n j] by (simp del: One_nat_def)
next
  case False
  then have n: "n < 2 ^ 53" by simp
  show ?thesis
  proof (cases "n = 0")
    case True
    then show ?thesis by simp
  next
    case False
    then have pos: "0 < n" by simp
    have "bits n \<le> 53" using n by (simp add: bits_le_iff)
    then have "bits (n * 2 ^ j) - 53 \<le> j"
      by (simp add: bits_mult_pow2 [OF pos])
    then have "2 ^ (bits (n * 2 ^ j) - 53) dvd n * 2 ^ j"
      by (simp add: le_imp_power_dvd dvd_mult)
    then have "round_mag (n * 2 ^ j) 1 = n * 2 ^ j" by (rule round_mag_fix)
    then show ?thesis by (simp only: round_mag_small [OF n])
  qed
qed

lemma round_mag_scale:
  assumes B: "0 < B" and c: "2 ^ 52 \<le> A div B \<or> B dvd A"
  shows "round_mag (A * 2 ^ j) B = round_mag A B * 2 ^ j"
  using c
proof
  assume "2 ^ 52 \<le> A div B"
  with B show ?thesis by (rule round_mag_scale_big)
next
  assume "B dvd A"
  then obtain n where "A = B * n" ..
  then have n: "A = n * B" by (simp add: mult.commute)
  have "round_mag (n * 2 ^ j * B) (1 * B) = round_mag (n * 2 ^ j) 1"
    using B by (rule round_mag_cancel)
  moreover have "round_mag (n * B) (1 * B) = round_mag n 1"
    using B by (rule round_mag_cancel)
  ultimately show ?thesis
    using round_mag_scale_int [of n j]
    by (simp add: n mult.assoc mult.commute [of B] del: One_nat_def)
qed

lemma nearest_even_le_pow:
  assumes B: "0 < B"
  shows "nearest_even A (B * 2 ^ (bits (A div B) - 53)) \<le> 2 ^ 53"
proof -
  let ?t = "A div B" and ?k = "bits (A div B) - 53"
  have "bits ?t \<le> 53 + ?k" by linarith
  then have "?t < 2 ^ (53 + ?k)"
    by (simp only: bits_le_iff)
  then have "?t < 2 ^ 53 * 2 ^ ?k" by (simp add: power_add)
  then have "?t div 2 ^ ?k < 2 ^ 53"
    by (simp add: less_mult_imp_div_less)
  moreover have "A div (B * 2 ^ ?k) = ?t div 2 ^ ?k"
    by (simp add: div_mult2_eq)
  ultimately have "A div (B * 2 ^ ?k) + 1 \<le> 2 ^ 53" by simp
  moreover have "nearest_even A (B * 2 ^ ?k) \<le> A div (B * 2 ^ ?k) + 1"
    using nearest_even_bounds [of "B * 2 ^ ?k" A] B by simp
  ultimately show ?thesis by linarith
qed

lemma round_mag_idem:
  assumes B: "0 < B"
  shows "round_mag (round_mag A B) 1 = round_mag A B"
proof -
  let ?k = "bits (A div B) - 53"
  let ?q = "nearest_even A (B * 2 ^ ?k)"
  have q: "?q \<le> 2 ^ 53" using B by (rule nearest_even_le_pow)
  have "round_mag ?q 1 = ?q"
  proof (cases "?q < 2 ^ 53")
    case True
    then show ?thesis by (rule round_mag_small)
  next
    case False
    with q have e: "?q = 1 * 2 ^ 53" by simp
    have "round_mag (1 * 2 ^ 53) 1 = round_mag 1 1 * 2 ^ 53"
      by (rule round_mag_scale_int)
    also have "round_mag 1 1 = 1" by (rule round_mag_small) simp
    finally show ?thesis unfolding e .
  qed
  then show ?thesis
    by (simp only: round_mag_alt [of A B] round_mag_scale_int)
qed

lemma round_mag_fix_dvd:
  assumes "round_mag d 1 = d"
  shows "2 ^ (bits d - 53) dvd d"
proof -
  have "d = nearest_even d (1 * 2 ^ (bits (d div 1) - 53)) * 2 ^ (bits (d div 1) - 53)"
    using assms by (simp only: round_mag_alt [symmetric])
  then have "d = nearest_even d (2 ^ (bits d - 53)) * 2 ^ (bits d - 53)" by simp
  then show ?thesis by (metis dvd_triv_right)
qed

lemma round_mag_ge_fix:
  assumes d: "round_mag d 1 = d" and le: "d \<le> n"
  shows "d \<le> round_mag n 1"
proof -
  let ?k = "bits n - 53" and ?kd = "bits d - 53"
  have fl: "m \<le> (n div 2 ^ ?k) * 2 ^ ?k" if "2 ^ ?k dvd m" "m \<le> n" for m
  proof -
    from that(1) obtain c where c: "m = 2 ^ ?k * c" ..
    then have "c = m div 2 ^ ?k" by simp
    also have "\<dots> \<le> n div 2 ^ ?k" using that(2) by (rule div_le_mono)
    finally show ?thesis using c by (simp add: mult.commute)
  qed
  have "d \<le> (n div 2 ^ ?k) * 2 ^ ?k"
  proof (cases "?kd = ?k")
    case True
    with round_mag_fix_dvd [OF d] have "2 ^ ?k dvd d" by simp
    then show ?thesis using le by (rule fl)
  next
    case False
    have "bits d \<le> bits n" using le by (rule bits_mono)
    with False have k: "0 < ?k" and lt: "bits d < bits n" by auto
    then have n0: "0 < n" by (metis bits_0 gr0I not_less_zero)
    have "d < 2 ^ bits d" by (simp add: bits_le_iff [symmetric])
    also have "\<dots> \<le> 2 ^ (bits n - 1)" using lt by (simp add: power_increasing)
    finally have dl: "d \<le> 2 ^ (bits n - 1)" by simp
    have "?k \<le> bits n - 1" by simp
    then have "(2::nat) ^ ?k dvd 2 ^ (bits n - 1)" by (rule le_imp_power_dvd)
    moreover have "2 ^ (bits n - 1) \<le> n" using bits_bounds [OF n0] by simp
    ultimately have "2 ^ (bits n - 1) \<le> (n div 2 ^ ?k) * 2 ^ ?k" by (rule fl)
    with dl show ?thesis by simp
  qed
  also have "\<dots> \<le> nearest_even n (2 ^ ?k) * 2 ^ ?k"
    using nearest_even_bounds [of "2 ^ ?k" n] by simp
  also have "\<dots> = round_mag n 1"
    by (simp add: round_mag_alt del: One_nat_def)
  finally show ?thesis .
qed

lemma round_mag_pos: "0 < n \<Longrightarrow> 0 < round_mag n 1"
proof -
  assume "0 < n"
  then have "1 \<le> n" by simp
  moreover have "round_mag 1 1 = 1" by (rule round_mag_small) simp
  ultimately have "1 \<le> round_mag n 1" by (rule round_mag_ge_fix [rotated])
  then show ?thesis by simp
qed

lemma bits_1 [simp]: "bits 1 = 1" "bits (Suc 0) = 1"
  by (simp_all add: bits.simps)

lemma bits_numeral: "bits (numeral k) = Suc (bits (numeral k div 2))"
  by (subst bits.simps) simp

lemma below_overflow:
  assumes "r < 2 ^ 1024" "j \<le> 1074"
  shows "r * 2 ^ j < (2::nat) ^ 2098"
proof -
  have "r * 2 ^ j < 2 ^ 1024 * 2 ^ j"
    using assms(1) by (rule mult_strict_right_mono) (rule zero_less_power, rule pos2)
  also have "\<dots> = 2 ^ (1024 + j)" by (simp only: power_add)
  also have "\<dots> \<le> 2 ^ 2098"
  proof (rule power_increasing)
    show "1024 + j \<le> 2098" using assms(2) by linarith
    show "(1::nat) \<le> 2" by simp
  qed
  finally show ?thesis .
qed

lemma round_double_Finite:
  assumes "0 < round_mag A B" "round_mag A B < 2 ^ 2098"
  shows "round_double neg A B = Finite (if neg then - int (round_mag A B) else int (round_mag A B))"
  using assms by (simp only: round_double_def Let_def not_le [symmetric] if_False) simp

lemma round_mag_pos_ratio:
  assumes B: "0 < B" and le: "B \<le> A"
  shows "0 < round_mag A B"
proof -
  let ?t = "A div B" and ?k = "bits (A div B) - 53"
  have t: "0 < ?t" using B le by (simp add: div_greater_zero_iff)
  have "2 ^ ?k \<le> ?t"
  proof -
    have "2 ^ ?k \<le> (2::nat) ^ (bits ?t - 1)" by (rule power_increasing) simp_all
    with bits_bounds [OF t] show ?thesis by linarith
  qed
  then have "0 < ?t div 2 ^ ?k" by (simp add: div_greater_zero_iff)
  moreover have "A div (B * 2 ^ ?k) = ?t div 2 ^ ?k" by (simp add: div_mult2_eq)
  moreover have "A div (B * 2 ^ ?k) \<le> nearest_even A (B * 2 ^ ?k)"
    using nearest_even_bounds [of "B * 2 ^ ?k" A] B by simp
  ultimately have "0 < nearest_even A (B * 2 ^ ?k)" by linarith
  then show ?thesis by (simp add: round_mag_alt)
qed

lemma Finite_sgn:
  "m \<noteq> 0 \<Longrightarrow> (if m < 0 then - int r else int r) * 2 ^ j = sgn m * int r * 2 ^ j"
  by (simp add: sgn_if)

lemma dadd_Finite:
  assumes nz: "a + b \<noteq> 0" and j: "j \<le> 1074"
    and r: "round_mag (nat \<bar>a + b\<bar>) 1 < 2 ^ 1024"
  shows "dadd (Finite (a * 2 ^ j)) (Finite (b * 2 ^ j))
       = Finite (sgn (a + b) * int (round_mag (nat \<bar>a + b\<bar>) 1) * 2 ^ j)"
proof -
  let ?N = "nat \<bar>a + b\<bar>" and ?R = "round_mag (nat \<bar>a + b\<bar>) 1"
  have m: "a * 2 ^ j + b * 2 ^ j = (a + b) * 2 ^ j" by (simp add: distrib_right)
  have m0: "(a + b) * 2 ^ j \<noteq> 0" using nz by simp
  have ab: "\<not> (a = 0 \<and> b = 0)" using nz by auto
  have n: "nat \<bar>(a + b) * 2 ^ j\<bar> = ?N * 2 ^ j"
    by (simp add: abs_mult nat_mult_distrib nat_power_eq)
  have s: "round_mag (?N * 2 ^ j) 1 = ?R * 2 ^ j" by (rule round_mag_scale_int)
  have "0 < ?N" using nz by simp
  then have p: "0 < ?R" by (rule round_mag_pos)
  then have p': "0 < round_mag (?N * 2 ^ j) 1" unfolding s by simp
  have o: "round_mag (?N * 2 ^ j) 1 < 2 ^ 2098"
    unfolding s using r j by (rule below_overflow)
  have neg: "((a + b) * 2 ^ j < 0) = (a + b < 0)"
    by (simp add: mult_less_0_iff)
  have "dadd (Finite (a * 2 ^ j)) (Finite (b * 2 ^ j))
      = round_double ((a + b) * 2 ^ j < 0) (?N * 2 ^ j) 1"
    using ab m0 by (auto simp add: dadd_def m n Let_def simp del: One_nat_def)
  also have "\<dots> = Finite (if (a + b) * 2 ^ j < 0 then - int (?R * 2 ^ j) else int (?R * 2 ^ j))"
    using round_double_Finite [OF p' o] by (simp only: s)
  also have "\<dots> = Finite (sgn (a + b) * int ?R * 2 ^ j)"
    using nz by (simp add: neg sgn_if)
  finally show ?thesis .
qed

lemma dadd_Finite_zero:
  "a + b = 0 \<Longrightarrow> dadd (Finite (a * 2 ^ j)) (Finite (b * 2 ^ j)) = Finite 0"
proof -
  assume z: "a + b = 0"
  then have "a * 2 ^ j + b * 2 ^ j = 0"
    by (metis distrib_right mult_zero_left)
  then show ?thesis by (simp add: dadd_def Let_def)
qed

lemma dsub_Finite:
  assumes nz: "a - b \<noteq> 0" and j: "j \<le> 1074"
    and r: "round_mag (nat \<bar>a - b\<bar>) 1 < 2 ^ 1024"
  shows "dsub (Finite (a * 2 ^ j)) (Finite (b * 2 ^ j))
       = Finite (sgn (a - b) * int (round_mag (nat \<bar>a - b\<bar>) 1) * 2 ^ j)"
proof (cases "b = 0")
  case False
  then have "dsub (Finite (a * 2 ^ j)) (Finite (b * 2 ^ j))
      = dadd (Finite (a * 2 ^ j)) (Finite (- b * 2 ^ j))"
    by (simp add: dsub_def)
  also have "\<dots> = Finite (sgn (a + - b) * int (round_mag (nat \<bar>a + - b\<bar>) 1) * 2 ^ j)"
    using nz r by (intro dadd_Finite j) simp_all
  finally show ?thesis by simp
next
  case True
  have "dadd (Finite (a * 2 ^ j)) (Finite (0 * 2 ^ j))
      = Finite (sgn (a + 0) * int (round_mag (nat \<bar>a + 0\<bar>) 1) * 2 ^ j)"
    using nz r True by (intro dadd_Finite j) simp_all
  moreover have "dadd (Finite (a * 2 ^ j)) NegZero = dadd (Finite (a * 2 ^ j)) (Finite (0 * 2 ^ j))"
    using nz True by (simp add: dadd_def)
  ultimately show ?thesis using True by (simp add: dsub_def)
qed

lemma dsub_Finite_zero:
  "a - b = 0 \<Longrightarrow> dsub (Finite (a * 2 ^ j)) (Finite (b * 2 ^ j)) = Finite 0"
  by (simp add: dsub_def dadd_def Let_def)

lemma mag_Finite_scale: "mag (Finite (a * 2 ^ j)) = nat \<bar>a\<bar> * 2 ^ j"
  by (simp add: mag_def abs_mult nat_mult_distrib nat_power_eq)

lemma sign_product:
  "a \<noteq> 0 \<Longrightarrow> b \<noteq> 0 \<Longrightarrow>
   (if (a < 0) \<noteq> (b < 0) then - int r else int r) = sgn a * sgn b * int r"
  by (auto simp: sgn_if)

lemma ratio_le:
  assumes "0 < B" "0 < A" "2 ^ 52 \<le> A div B \<or> B dvd A"
  shows "B \<le> (A::nat)"
  using assms(3)
proof
  assume "2 ^ 52 \<le> A div B"
  moreover have "(0::nat) < 2 ^ 52" by simp
  ultimately have "0 < A div B" by linarith
  then show ?thesis by (simp add: div_greater_zero_iff)
next
  assume "B dvd A"
  then show ?thesis using assms(2) by (rule dvd_imp_le)
qed

lemma ddiv_Finite:
  assumes a: "a \<noteq> 0" and b: "b \<noteq> 0" and ij: "i + j = 1074"
    and c: "2 ^ 52 \<le> (nat \<bar>a\<bar> * 2 ^ i) div nat \<bar>b\<bar> \<or> nat \<bar>b\<bar> dvd nat \<bar>a\<bar> * 2 ^ i"
    and r: "round_mag (nat \<bar>a\<bar> * 2 ^ i) (nat \<bar>b\<bar>) < 2 ^ 1024"
  shows "ddiv (Finite (a * 2 ^ j)) (Finite (b * 2 ^ j))
       = Finite (sgn a * sgn b * int (round_mag (nat \<bar>a\<bar> * 2 ^ i) (nat \<bar>b\<bar>)) * 2 ^ j)"
proof -
  let ?A = "nat \<bar>a\<bar> * 2 ^ i" and ?B = "nat \<bar>b\<bar>"
  let ?R = "round_mag ?A ?B"
  have B: "0 < ?B" using b by simp
  have A: "0 < ?A" using a by simp
  have j: "j \<le> 1074" using ij by linarith
  have p: "(2::nat) ^ 1074 = 2 ^ i * 2 ^ j"
    by (simp only: power_add [symmetric] ij)
  have "mag (Finite (a * 2 ^ j)) * 2 ^ 1074 = ?A * 2 ^ j * 2 ^ j"
    by (simp only: mag_Finite_scale p mult.assoc mult.left_commute [of "2 ^ j"])
  moreover have "round_mag (?A * 2 ^ j * 2 ^ j) (?B * 2 ^ j) = round_mag (?A * 2 ^ j) ?B"
    by (rule round_mag_cancel) simp
  moreover have "round_mag (?A * 2 ^ j) ?B = ?R * 2 ^ j"
    using B c by (rule round_mag_scale)
  ultimately have rm: "round_mag (mag (Finite (a * 2 ^ j)) * 2 ^ 1074) (mag (Finite (b * 2 ^ j)))
      = ?R * 2 ^ j"
    by (simp only: mag_Finite_scale)
  have "?B \<le> ?A" using B A c by (rule ratio_le)
  with B have pos: "0 < ?R" by (rule round_mag_pos_ratio)
  then have p': "0 < ?R * 2 ^ j" by simp
  have o: "?R * 2 ^ j < 2 ^ 2098" using r j by (rule below_overflow)
  have sg: "sign_bit (Finite (a * 2 ^ j)) = (a < 0)" "sign_bit (Finite (b * 2 ^ j)) = (b < 0)"
    by (simp_all add: mult_less_0_iff)
  have z: "\<not> is_zero (Finite (a * 2 ^ j))" "\<not> is_zero (Finite (b * 2 ^ j))"
    using a b by simp_all
  have "ddiv (Finite (a * 2 ^ j)) (Finite (b * 2 ^ j))
      = round_double ((a < 0) \<noteq> (b < 0)) (mag (Finite (a * 2 ^ j)) * 2 ^ 1074)
          (mag (Finite (b * 2 ^ j)))"
    unfolding ddiv_def Let_def sg using z by simp
  also have "\<dots> = Finite (if (a < 0) \<noteq> (b < 0) then - int (?R * 2 ^ j) else int (?R * 2 ^ j))"
    using round_double_Finite [of "mag (Finite (a * 2 ^ j)) * 2 ^ 1074" "mag (Finite (b * 2 ^ j))"]
      p' o unfolding rm by simp
  also have "\<dots> = Finite (sgn a * sgn b * int ?R * 2 ^ j)"
    using a b by (auto simp: sgn_if)
  finally show ?thesis .
qed

lemma dmul_Finite:
  assumes a: "a \<noteq> 0" and b: "b \<noteq> 0" and ij: "i + j = 1074"
    and c: "2 ^ 52 \<le> nat \<bar>a * b\<bar> div 2 ^ i \<or> 2 ^ i dvd nat \<bar>a * b\<bar>"
    and r: "round_mag (nat \<bar>a * b\<bar>) (2 ^ i) < 2 ^ 1024"
  shows "dmul (Finite (a * 2 ^ j)) (Finite (b * 2 ^ j))
       = Finite (sgn a * sgn b * int (round_mag (nat \<bar>a * b\<bar>) (2 ^ i)) * 2 ^ j)"
proof -
  let ?A = "nat \<bar>a * b\<bar>" and ?B = "(2::nat) ^ i"
  let ?R = "round_mag ?A ?B"
  have B: "0 < ?B" by simp
  have A: "0 < ?A" using a b by simp
  have j: "j \<le> 1074" using ij by linarith
  have p: "(2::nat) ^ 1074 = 2 ^ i * 2 ^ j"
    by (simp only: power_add [symmetric] ij)
  have ab: "nat \<bar>a\<bar> * nat \<bar>b\<bar> = ?A"
    by (simp add: abs_mult nat_mult_distrib)
  have "mag (Finite (a * 2 ^ j)) * mag (Finite (b * 2 ^ j)) = ?A * 2 ^ j * 2 ^ j"
    unfolding mag_Finite_scale ab [symmetric] by (simp only: mult.assoc mult.left_commute)
  moreover have "round_mag (?A * 2 ^ j * 2 ^ j) (?B * 2 ^ j) = round_mag (?A * 2 ^ j) ?B"
    by (rule round_mag_cancel) simp
  moreover have "round_mag (?A * 2 ^ j) ?B = ?R * 2 ^ j"
    using B c by (rule round_mag_scale)
  ultimately have rm: "round_mag (mag (Finite (a * 2 ^ j)) * mag (Finite (b * 2 ^ j))) (2 ^ 1074)
      = ?R * 2 ^ j"
    by (simp only: p)
  have "?B \<le> ?A" using B A c by (rule ratio_le)
  with B have pos: "0 < ?R" by (rule round_mag_pos_ratio)
  then have p': "0 < ?R * 2 ^ j" by simp
  have o: "?R * 2 ^ j < 2 ^ 2098" using r j by (rule below_overflow)
  have sg: "sign_bit (Finite (a * 2 ^ j)) = (a < 0)" "sign_bit (Finite (b * 2 ^ j)) = (b < 0)"
    by (simp_all add: mult_less_0_iff)
  have "dmul (Finite (a * 2 ^ j)) (Finite (b * 2 ^ j))
      = round_double ((a < 0) \<noteq> (b < 0)) (mag (Finite (a * 2 ^ j)) * mag (Finite (b * 2 ^ j)))
          (2 ^ 1074)"
    unfolding dmul_def Let_def sg by simp
  also have "\<dots> = Finite (if (a < 0) \<noteq> (b < 0) then - int (?R * 2 ^ j) else int (?R * 2 ^ j))"
    using round_double_Finite
      [of "mag (Finite (a * 2 ^ j)) * mag (Finite (b * 2 ^ j))" "2 ^ 1074"]
      p' o unfolding rm by simp
  also have "\<dots> = Finite (sgn a * sgn b * int ?R * 2 ^ j)"
    using a b by (auto simp: sgn_if)
  finally show ?thesis .
qed

lemma dbl_exp:
  assumes "- 1074 \<le> e" "e \<le> 0"
  shows "nat (- e) + nat (e + 1074) = 1074" "nat (e + 1074) \<le> 1074"
  using assms by simp_all

lemma dadd_dbl:
  assumes "- 1074 \<le> e" "e \<le> 0" "a + b \<noteq> 0" "round_mag (nat \<bar>a + b\<bar>) 1 < 2 ^ 1024"
  shows "dadd (dbl a e) (dbl b e) = dbl (sgn (a + b) * int (round_mag (nat \<bar>a + b\<bar>) 1)) e"
  unfolding dbl_def using assms(3) dbl_exp(2) [OF assms(1,2)] assms(4) by (rule dadd_Finite)

lemma dadd_dbl_zero: "a + b = 0 \<Longrightarrow> dadd (dbl a e) (dbl b e) = dbl 0 e"
  unfolding dbl_def by (simp add: dadd_Finite_zero)

lemma dsub_dbl:
  assumes "- 1074 \<le> e" "e \<le> 0" "a - b \<noteq> 0" "round_mag (nat \<bar>a - b\<bar>) 1 < 2 ^ 1024"
  shows "dsub (dbl a e) (dbl b e) = dbl (sgn (a - b) * int (round_mag (nat \<bar>a - b\<bar>) 1)) e"
  unfolding dbl_def using assms(3) dbl_exp(2) [OF assms(1,2)] assms(4) by (rule dsub_Finite)

lemma dsub_dbl_zero: "a - b = 0 \<Longrightarrow> dsub (dbl a e) (dbl b e) = dbl 0 e"
  unfolding dbl_def by (simp add: dsub_Finite_zero)

lemma ddiv_dbl:
  assumes "- 1074 \<le> e" "e \<le> 0" "a \<noteq> 0" "b \<noteq> 0"
    and "2 ^ 52 \<le> (nat \<bar>a\<bar> * 2 ^ nat (- e)) div nat \<bar>b\<bar>
         \<or> nat \<bar>b\<bar> dvd nat \<bar>a\<bar> * 2 ^ nat (- e)"
    and "round_mag (nat \<bar>a\<bar> * 2 ^ nat (- e)) (nat \<bar>b\<bar>) < 2 ^ 1024"
  shows "ddiv (dbl a e) (dbl b e)
       = dbl (sgn a * sgn b * int (round_mag (nat \<bar>a\<bar> * 2 ^ nat (- e)) (nat \<bar>b\<bar>))) e"
  unfolding dbl_def
  using assms(3,4) dbl_exp(1) [OF assms(1,2)] assms(5,6) by (rule ddiv_Finite)

lemma dmul_dbl:
  assumes "- 1074 \<le> e" "e \<le> 0" "a \<noteq> 0" "b \<noteq> 0"
    and "2 ^ 52 \<le> nat \<bar>a * b\<bar> div 2 ^ nat (- e) \<or> 2 ^ nat (- e) dvd nat \<bar>a * b\<bar>"
    and "round_mag (nat \<bar>a * b\<bar>) (2 ^ nat (- e)) < 2 ^ 1024"
  shows "dmul (dbl a e) (dbl b e)
       = dbl (sgn a * sgn b * int (round_mag (nat \<bar>a * b\<bar>) (2 ^ nat (- e)))) e"
  unfolding dbl_def
  using assms(3,4) dbl_exp(1) [OF assms(1,2)] assms(5,6) by (rule dmul_Finite)

lemma dnat_dbl:
  assumes "- 1074 \<le> e" "e \<le> 0"
  shows "dnat n = dbl (int n * 2 ^ nat (- e)) e"
proof -
  have "(2::int) ^ 1074 = 2 ^ nat (- e) * 2 ^ nat (e + 1074)"
    by (simp only: power_add [symmetric] dbl_exp(1) [OF assms])
  then show ?thesis by (simp only: dnat_def dbl_def mult.assoc)
qed

lemmas dbl_eval = dadd_dbl dadd_dbl_zero dsub_dbl dsub_dbl_zero ddiv_dbl dmul_dbl
  round_mag_def nearest_even_def Let_def bits_numeral

section \<open>Comparison, sorting and monotone addition\<close>

lemma dbl_inject [simp]: "dbl a e = dbl b e \<longleftrightarrow> a = b"
  by (simp add: dbl_def)

lemma dpos_dbl [simp]: "dpos (dbl m e) = (0 < m)"
  by (simp add: dbl_def zero_less_mult_iff)

lemma dle_dbl [simp]: "dle (dbl a e) (dbl b e) = (a \<le> b)"
  by (simp add: dbl_def)

lemma dfinite_dbl [simp]: "dfinite (dbl m e)"
  by (simp add: dbl_def dfinite_def)

lemma dfinite_dnat [simp]: "dfinite (dnat n)"
  by (simp add: dnat_def dfinite_def)

lemma scaled_quotient:
  "i + j = N \<Longrightarrow> real_of_int (m * 2 ^ j) / 2 ^ N = real_of_int m / 2 ^ i"
  by (auto simp: power_add)

lemma rval_dbl:
  assumes "- 1074 \<le> e" "e \<le> 0"
  shows "rval (dbl m e) = real_of_int m / 2 ^ nat (- e)"
  unfolding rval_def dbl_def ival.simps
  using dbl_exp(1) [OF assms] by (rule scaled_quotient)

lemma dpos_round_double: "0 < A \<Longrightarrow> dpos (round_double neg A 1) = (\<not> neg)"
  using round_mag_pos [of A] by (simp add: round_double_def Let_def del: One_nat_def)

lemma dfinite_cases:
  assumes "dfinite x"
  obtains m where "x = Finite m" | "x = NegZero"
  using assms by (cases x) (simp_all add: dfinite_def)

lemma dpos_dsub:
  assumes "dfinite x" "dfinite y"
  shows "dpos (dsub x y) \<longleftrightarrow> ival y < ival x"
proof -
  have r: "dpos (round_double (m < 0) (nat \<bar>m\<bar>) 1) = (0 < m)" if "m \<noteq> 0" for m :: int
    using that dpos_round_double [of "nat \<bar>m\<bar>" "m < 0"] by auto
  show ?thesis
    using assms(1)
  proof (cases x rule: dfinite_cases)
    case (1 a)
    show ?thesis using assms(2)
    proof (cases y rule: dfinite_cases)
      case (1 b)
      then show ?thesis
        using \<open>x = Finite a\<close> r [of "a - b"] r [of a]
        by (auto simp add: dsub_def dadd_def Let_def simp del: One_nat_def)
    next
      case 2
      then show ?thesis
        using \<open>x = Finite a\<close> r [of a]
        by (auto simp add: dsub_def dadd_def Let_def simp del: One_nat_def)
    qed
  next
    case 2
    show ?thesis using assms(2)
    proof (cases y rule: dfinite_cases)
      case (1 b)
      then show ?thesis
        using \<open>x = NegZero\<close> r [of "- b"]
        by (auto simp add: dsub_def dadd_def Let_def simp del: One_nat_def)
    next
      case 2
      then show ?thesis
        using \<open>x = NegZero\<close> by (simp add: dsub_def dadd_def)
    qed
  qed
qed

lemma insert_cmp_insort_key:
  assumes "dfinite (key x)" "\<forall>y \<in> set ys. dfinite (key y)"
  shows "insert_cmp (\<lambda>a b. dsub (key a) (key b)) x ys = insort_key (\<lambda>i. ival (key i)) x ys"
  using assms(2)
proof (induction ys)
  case Nil
  then show ?case by simp
next
  case (Cons y ys)
  then show ?case
    using dpos_dsub [OF assms(1), of "key y"] by (auto simp: not_less)
qed

lemma sort_cmp_sort_key:
  assumes "\<forall>y \<in> set xs. dfinite (key y)"
  shows "sort_cmp (\<lambda>a b. dsub (key a) (key b)) xs = sort_key (\<lambda>i. ival (key i)) xs"
  using assms
proof (induction xs)
  case Nil
  then show ?case by (simp add: sort_cmp_def)
next
  case (Cons x xs)
  then have "sort_cmp (\<lambda>a b. dsub (key a) (key b)) xs = sort_key (\<lambda>i. ival (key i)) xs"
    by simp
  moreover have "\<forall>y \<in> set (sort_key (\<lambda>i. ival (key i)) xs). dfinite (key y)"
    using Cons.prems by simp
  ultimately show ?case
    using Cons.prems insert_cmp_insort_key [of key x "sort_key (\<lambda>i. ival (key i)) xs"]
    by (simp add: sort_cmp_def sort_key_def)
qed

lemma dle_trans: "dle x y \<Longrightarrow> dle y z \<Longrightarrow> dle x z"
  by (cases x; cases y; cases z) simp_all

lemma dle_zero_cases:
  assumes "dle (Finite 0) x"
  obtains "x = PosInf" | "dfinite x" "0 \<le> ival x"
  using assms by (cases x) (simp_all add: dfinite_def)

lemma dvalid_dnat: "n < 2 ^ 53 \<Longrightarrow> dvalid (dnat n)"
proof -
  assume n: "n < 2 ^ 53"
  have m: "mag (dnat n) = n * 2 ^ 1074"
    by (simp add: mag_def dnat_def abs_mult nat_mult_distrib nat_power_eq)
  have "round_mag (n * 2 ^ 1074) 1 = n * 2 ^ 1074"
    by (simp only: round_mag_scale_int round_mag_small [OF n])
  moreover have "n * 2 ^ 1074 < 2 ^ 2098"
  proof (rule below_overflow)
    have "(2::nat) ^ 53 \<le> 2 ^ 1024" by simp
    with n show "n < 2 ^ 1024" by linarith
  qed simp
  ultimately show ?thesis by (simp only: dvalid_def m)
qed

lemma dadd_increase:
  assumes v: "dvalid x" and x: "dle (Finite 0) x" and y: "dle (Finite 0) y"
  shows "dle x (dadd x y) \<and> dvalid (dadd x y) \<and> dle (Finite 0) (dadd x y)"
  using x
proof (cases x rule: dle_zero_cases)
  case 1
  with y show ?thesis
    by (cases y) (simp_all add: dadd_def dvalid_def mag_def)
next
  case xf: 2
  show ?thesis using y
  proof (cases y rule: dle_zero_cases)
    case 1
    with xf show ?thesis
      by (cases x) (simp_all add: dadd_def dvalid_def mag_def dfinite_def)
  next
    case yf: 2
    let ?m = "ival x + ival y"
    have fin: "\<not> is_nan x" "\<not> is_nan y" "\<not> is_inf x" "\<not> is_inf y"
      using xf yf by (simp_all add: dfinite_def)
    show ?thesis
    proof (cases "is_zero x \<and> is_zero y")
      case True
      then have "dadd x y = Finite 0 \<or> dadd x y = NegZero"
        using fin by (simp add: dadd_def)
      moreover have "ival x = 0" using True by (cases x) simp_all
      ultimately show ?thesis
        using xf by (cases x) (auto simp: dvalid_def mag_def dfinite_def)
    next
      case False
      have zx: "is_zero x \<longleftrightarrow> ival x = 0" using xf by (cases x) (simp_all add: dfinite_def)
      have zy: "is_zero y \<longleftrightarrow> ival y = 0" using yf by (cases y) (simp_all add: dfinite_def)
      have m: "0 < ?m" using False xf yf zx zy by linarith
      let ?r = "round_mag (nat ?m) 1"
      from False have nz: "(is_zero x \<and> is_zero y) = False" by simp
      have d: "dadd x y = round_double False (nat ?m) 1"
        using fin m by (simp add: dadd_def Let_def nz del: One_nat_def)
      have "mag x \<le> nat ?m" using xf yf by (simp add: mag_def)
      with v have ge: "mag x \<le> ?r"
        unfolding dvalid_def by (intro round_mag_ge_fix) simp_all
      have rp: "0 < ?r" using m by (intro round_mag_pos) simp
      have idem: "round_mag ?r 1 = ?r" by (rule round_mag_idem) simp
      have ix: "ival x = int (mag x)" using xf by (simp add: mag_def)
      show ?thesis
      proof (cases "2 ^ 2098 \<le> ?r")
        case True
        then have "dadd x y = PosInf" by (simp add: d round_double_def Let_def del: One_nat_def)
        then show ?thesis using xf by (cases x) (simp_all add: dvalid_def mag_def dfinite_def)
      next
        case False
        then have e: "dadd x y = Finite (int ?r)"
          using rp by (simp add: d round_double_def Let_def del: One_nat_def)
        have "dle x (Finite (int ?r))"
          using xf ge ix by (cases x) (simp_all add: dfinite_def)
        moreover have "dvalid (Finite (int ?r))"
          using idem False by (simp add: dvalid_def mag_def del: One_nat_def)
        ultimately show ?thesis by (simp add: e)
      qed
    qed
  qed
qed

section \<open>Lemmas on each position-assigning function\<close>

lemma nth_update_if:
  "j < length s \<Longrightarrow> s[i := x] ! j = (if j = i then x else s ! j)"
  by (cases "j = i") simp_all

lemma length_center_left_loop [simp]:
  "length (center_left_loop a xs s) = length s"
  by (induction xs arbitrary: s) simp_all

lemma length_center_top_loop [simp]:
  "length (center_top_loop a xs s) = length s"
  by (induction xs arbitrary: s) simp_all

lemma length_distribute_left_loop [simp]:
  "length (distribute_left_loop gap xs cur s) = length s"
  by (induction xs arbitrary: cur s) (simp_all add: Let_def)

lemma length_distribute_top_loop [simp]:
  "length (distribute_top_loop gap xs cur s) = length s"
  by (induction xs arbitrary: cur s) (simp_all add: Let_def)

lemma length_arrange_left_loop [simp]:
  "length (arrange_left_loop gap a xs cur s) = length s"
  by (induction xs arbitrary: cur s) (simp_all add: Let_def)

lemma length_arrange_top_loop [simp]:
  "length (arrange_top_loop gap a xs cur s) = length s"
  by (induction xs arbitrary: cur s) (simp_all add: Let_def)

lemma center_left_loop_nth:
  "j < length s \<Longrightarrow>
   center_left_loop a xs s ! j =
     (if j \<in> set xs then (s ! j)\<lparr>left := dsub a (ddiv (width (s ! j)) (dnat 2))\<rparr> else s ! j)"
proof (induction xs arbitrary: s)
  case Nil
  then show ?case by simp
next
  case (Cons i xs)
  let ?s1 = "s[i := (s ! i)\<lparr>left := dsub a (ddiv (width (s ! i)) (dnat 2))\<rparr>]"
  have "j < length ?s1" using Cons.prems by simp
  from Cons.IH [OF this] show ?case
    using Cons.prems by (cases "j = i") simp_all
qed




lemma distribute_left_loop_frame:
  "j < length s \<Longrightarrow>
   top_s (distribute_left_loop gap xs cur s ! j) = top_s (s ! j) \<and>
   width (distribute_left_loop gap xs cur s ! j) = width (s ! j) \<and>
   height (distribute_left_loop gap xs cur s ! j) = height (s ! j) \<and>
   id_s (distribute_left_loop gap xs cur s ! j) = id_s (s ! j)"
  by (induction xs arbitrary: cur s) (simp_all add: Let_def nth_update_if)

lemma distribute_top_loop_frame:
  "j < length s \<Longrightarrow>
   left (distribute_top_loop gap xs cur s ! j) = left (s ! j) \<and>
   width (distribute_top_loop gap xs cur s ! j) = width (s ! j) \<and>
   height (distribute_top_loop gap xs cur s ! j) = height (s ! j) \<and>
   id_s (distribute_top_loop gap xs cur s ! j) = id_s (s ! j)"
  by (induction xs arbitrary: cur s) (simp_all add: Let_def nth_update_if)

lemma arrange_left_loop_frame:
  "j < length s \<Longrightarrow>
   width (arrange_left_loop gap a xs cur s ! j) = width (s ! j) \<and>
   height (arrange_left_loop gap a xs cur s ! j) = height (s ! j) \<and>
   id_s (arrange_left_loop gap a xs cur s ! j) = id_s (s ! j)"
  by (induction xs arbitrary: cur s) (simp_all add: Let_def nth_update_if)

lemma arrange_top_loop_frame:
  "j < length s \<Longrightarrow>
   width (arrange_top_loop gap a xs cur s ! j) = width (s ! j) \<and>
   height (arrange_top_loop gap a xs cur s ! j) = height (s ! j) \<and>
   id_s (arrange_top_loop gap a xs cur s ! j) = id_s (s ! j)"
  by (induction xs arbitrary: cur s) (simp_all add: Let_def nth_update_if)

lemma distribute_left_loop_outside:
  "j \<notin> set xs \<Longrightarrow> distribute_left_loop gap xs cur s ! j = s ! j"
  by (induction xs arbitrary: cur s) (simp_all add: Let_def)

lemma distribute_top_loop_outside:
  "j \<notin> set xs \<Longrightarrow> distribute_top_loop gap xs cur s ! j = s ! j"
  by (induction xs arbitrary: cur s) (simp_all add: Let_def)

lemma arrange_left_loop_outside:
  "j \<notin> set xs \<Longrightarrow> arrange_left_loop gap a xs cur s ! j = s ! j"
  by (induction xs arbitrary: cur s) (simp_all add: Let_def)

lemma arrange_top_loop_outside:
  "j \<notin> set xs \<Longrightarrow> arrange_top_loop gap a xs cur s ! j = s ! j"
  by (induction xs arbitrary: cur s) (simp_all add: Let_def)

lemma slot_after_Nil [simp]: "slot_after gap [] c = c"
  by (simp add: slot_after_def)

lemma slot_after_Cons [simp]:
  "slot_after gap (w # ws) c = slot_after gap ws (dadd c (dadd w gap))"
  by (simp add: slot_after_def)

lemma slot_after_snoc:
  "slot_after gap (ws @ [w]) c = dadd (slot_after gap ws c) (dadd w gap)"
  by (simp add: slot_after_def)

lemma slot_after_append:
  "slot_after gap (ws @ vs) c = slot_after gap vs (slot_after gap ws c)"
  by (simp add: slot_after_def)

lemma distribute_left_loop_left:
  "distinct xs \<Longrightarrow> \<forall>i \<in> set xs. i < length s \<Longrightarrow> k < length xs \<Longrightarrow>
   left (distribute_left_loop gap xs cur s ! (xs ! k))
     = slot_after gap (map (\<lambda>i. width (s ! i)) (take k xs)) cur"
proof (induction xs arbitrary: cur s k)
  case Nil
  then show ?case by simp
next
  case (Cons i xs)
  let ?s1 = "s[i := (s ! i)\<lparr>left := cur\<rparr>]"
  have i: "i < length s" "i \<notin> set xs" using Cons.prems by simp_all
  show ?case
  proof (cases k)
    case 0
    then show ?thesis
      using i by (simp add: Let_def distribute_left_loop_outside)
  next
    case (Suc k')
    have w: "map (\<lambda>j. width (?s1 ! j)) (take k' xs) = map (\<lambda>j. width (s ! j)) (take k' xs)"
      using Cons.prems(2) by (intro map_cong refl) (auto dest: in_set_takeD simp: nth_update_if)
    have wi: "width (?s1 ! i) = width (s ! i)"
      using i by (simp add: nth_update_if)
    have ih: "left (distribute_left_loop gap xs (dadd cur (dadd (width (?s1 ! i)) gap)) ?s1
                  ! (xs ! k'))
        = slot_after gap (map (\<lambda>j. width (?s1 ! j)) (take k' xs))
            (dadd cur (dadd (width (?s1 ! i)) gap))"
      using Cons.prems Suc by (intro Cons.IH) simp_all
    have step: "distribute_left_loop gap (i # xs) cur s
        = distribute_left_loop gap xs (dadd cur (dadd (width (?s1 ! i)) gap)) ?s1"
      by (simp only: distribute_left_loop.simps Let_def)
    have tk: "take k (i # xs) = i # take k' xs" "(i # xs) ! k = xs ! k'"
      using Suc by simp_all
    show ?thesis
      unfolding step tk ih by (simp only: w wi list.map slot_after_Cons)
  qed
qed

lemma distribute_top_loop_top:
  "distinct xs \<Longrightarrow> \<forall>i \<in> set xs. i < length s \<Longrightarrow> k < length xs \<Longrightarrow>
   top_s (distribute_top_loop gap xs cur s ! (xs ! k))
     = slot_after gap (map (\<lambda>i. height (s ! i)) (take k xs)) cur"
proof (induction xs arbitrary: cur s k)
  case Nil
  then show ?case by simp
next
  case (Cons i xs)
  let ?s1 = "s[i := (s ! i)\<lparr>top_s := cur\<rparr>]"
  have i: "i < length s" "i \<notin> set xs" using Cons.prems by simp_all
  show ?case
  proof (cases k)
    case 0
    then show ?thesis
      using i by (simp add: Let_def distribute_top_loop_outside)
  next
    case (Suc k')
    have w: "map (\<lambda>j. height (?s1 ! j)) (take k' xs) = map (\<lambda>j. height (s ! j)) (take k' xs)"
      using Cons.prems(2) by (intro map_cong refl) (auto dest: in_set_takeD simp: nth_update_if)
    have wi: "height (?s1 ! i) = height (s ! i)"
      using i by (simp add: nth_update_if)
    have ih: "top_s (distribute_top_loop gap xs (dadd cur (dadd (height (?s1 ! i)) gap)) ?s1
                  ! (xs ! k'))
        = slot_after gap (map (\<lambda>j. height (?s1 ! j)) (take k' xs))
            (dadd cur (dadd (height (?s1 ! i)) gap))"
      using Cons.prems Suc by (intro Cons.IH) simp_all
    have step: "distribute_top_loop gap (i # xs) cur s
        = distribute_top_loop gap xs (dadd cur (dadd (height (?s1 ! i)) gap)) ?s1"
      by (simp only: distribute_top_loop.simps Let_def)
    have tk: "take k (i # xs) = i # take k' xs" "(i # xs) ! k = xs ! k'"
      using Suc by simp_all
    show ?thesis
      unfolding step tk ih by (simp only: w wi list.map slot_after_Cons)
  qed
qed

lemma arrange_left_loop_left:
  "distinct xs \<Longrightarrow> \<forall>i \<in> set xs. i < length s \<Longrightarrow> k < length xs \<Longrightarrow>
   left (arrange_left_loop gap a xs cur s ! (xs ! k))
     = slot_after gap (map (\<lambda>i. width (s ! i)) (take k xs)) cur"
proof (induction xs arbitrary: cur s k)
  case Nil
  then show ?case by simp
next
  case (Cons i xs)
  let ?s1 = "s[i := (s ! i)\<lparr>left := cur\<rparr>]"
  let ?s2 = "?s1[i := (?s1 ! i)\<lparr>top_s := dsub a (ddiv (height (?s1 ! i)) (dnat 2))\<rparr>]"
  have i: "i < length s" "i \<notin> set xs" using Cons.prems by simp_all
  show ?case
  proof (cases k)
    case 0
    then show ?thesis
      using i by (simp add: Let_def arrange_left_loop_outside)
  next
    case (Suc k')
    have w: "map (\<lambda>j. width (?s2 ! j)) (take k' xs) = map (\<lambda>j. width (s ! j)) (take k' xs)"
      using Cons.prems(2) by (intro map_cong refl) (auto dest: in_set_takeD simp: nth_update_if)
    have wi: "width (?s2 ! i) = width (s ! i)"
      using i by (simp add: nth_update_if)
    have ih: "left (arrange_left_loop gap a xs (dadd cur (dadd (width (?s2 ! i)) gap)) ?s2
                  ! (xs ! k'))
        = slot_after gap (map (\<lambda>j. width (?s2 ! j)) (take k' xs))
            (dadd cur (dadd (width (?s2 ! i)) gap))"
      using Cons.prems Suc by (intro Cons.IH) simp_all
    have step: "arrange_left_loop gap a (i # xs) cur s
        = arrange_left_loop gap a xs (dadd cur (dadd (width (?s2 ! i)) gap)) ?s2"
      by (simp only: arrange_left_loop.simps Let_def)
    have tk: "take k (i # xs) = i # take k' xs" "(i # xs) ! k = xs ! k'"
      using Suc by simp_all
    show ?thesis
      unfolding step tk ih by (simp only: w wi list.map slot_after_Cons)
  qed
qed

lemma arrange_left_loop_top:
  "i \<in> set xs \<Longrightarrow> i < length s \<Longrightarrow>
   top_s (arrange_left_loop gap a xs cur s ! i) = dsub a (ddiv (height (s ! i)) (dnat 2))"
proof (induction xs arbitrary: cur s)
  case Nil
  then show ?case by simp
next
  case (Cons x xs)
  let ?s1 = "s[x := (s ! x)\<lparr>left := cur\<rparr>]"
  let ?s2 = "?s1[x := (?s1 ! x)\<lparr>top_s := dsub a (ddiv (height (?s1 ! x)) (dnat 2))\<rparr>]"
  let ?cur = "dadd cur (dadd (width (?s2 ! x)) gap)"
  have len: "i < length ?s2" using Cons.prems by simp
  have h: "height (?s2 ! i) = height (s ! i)" using Cons.prems by (simp add: nth_update_if)
  show ?case
  proof (cases "i \<in> set xs")
    case True
    from Cons.IH [OF True len, of ?cur] h show ?thesis by (simp add: Let_def)
  next
    case False
    with Cons.prems have "i = x" by simp
    with False Cons.prems show ?thesis
      by (simp add: Let_def arrange_left_loop_outside)
  qed
qed

lemma arrange_top_loop_left:
  "i \<in> set xs \<Longrightarrow> i < length s \<Longrightarrow>
   left (arrange_top_loop gap a xs cur s ! i) = dsub a (ddiv (width (s ! i)) (dnat 2))"
proof (induction xs arbitrary: cur s)
  case Nil
  then show ?case by simp
next
  case (Cons x xs)
  let ?s1 = "s[x := (s ! x)\<lparr>top_s := cur\<rparr>]"
  let ?s2 = "?s1[x := (?s1 ! x)\<lparr>left := dsub a (ddiv (width (?s1 ! x)) (dnat 2))\<rparr>]"
  let ?cur = "dadd cur (dadd (height (?s2 ! x)) gap)"
  have len: "i < length ?s2" using Cons.prems by simp
  have h: "width (?s2 ! i) = width (s ! i)" using Cons.prems by (simp add: nth_update_if)
  show ?case
  proof (cases "i \<in> set xs")
    case True
    from Cons.IH [OF True len, of ?cur] h show ?thesis by (simp add: Let_def)
  next
    case False
    with Cons.prems have "i = x" by simp
    with False Cons.prems show ?thesis
      by (simp add: Let_def arrange_top_loop_outside)
  qed
qed

lemma slot_after_increase:
  assumes "dvalid c" "dle (Finite 0) c" "\<forall>w \<in> set ws. dle (Finite 0) (dadd w gap)"
  shows "dle c (slot_after gap ws c) \<and> dvalid (slot_after gap ws c)
       \<and> dle (Finite 0) (slot_after gap ws c)"
  using assms
proof (induction ws arbitrary: c)
  case Nil
  then show ?case by (cases c) simp_all
next
  case (Cons w ws)
  have inc: "dle (Finite 0) (dadd w gap)" using Cons.prems(3) by simp
  note a = dadd_increase [OF Cons.prems(1,2) inc]
  have "dle (dadd c (dadd w gap)) (slot_after gap ws (dadd c (dadd w gap)))
      \<and> dvalid (slot_after gap ws (dadd c (dadd w gap)))
      \<and> dle (Finite 0) (slot_after gap ws (dadd c (dadd w gap)))"
    using a Cons.prems(3) by (intro Cons.IH) simp_all
  with a show ?case by (auto intro: dle_trans)
qed

section \<open>Resolution of the identifiers and the branches\<close>

lemma selection_ofD: "selection_of s items \<Longrightarrow> i \<in> set items \<Longrightarrow> i < length s"
  by (simp add: selection_of_def list_all_iff)

lemma fold_upd_Some:
  "fold (\<lambda>i m. m(f i \<mapsto> i)) xs m0 k = Some i \<Longrightarrow>
   (i \<in> set xs \<and> f i = k) \<or> m0 k = Some i"
  by (induction xs arbitrary: m0) (fastforce split: if_splits)+

lemma fold_upd_dom:
  "dom (fold (\<lambda>i m. m(f i \<mapsto> i)) xs m0) = dom m0 \<union> f ` set xs"
  by (induction xs arbitrary: m0) auto

lemma shapeMap_Some:
  "shapeMap s k = Some i \<Longrightarrow> i < length s \<and> id_s (s ! i) = k"
  unfolding shapeMap_def by (drule fold_upd_Some) auto

lemma shapeMap_dom: "dom (shapeMap s) = id_s ` set s"
proof -
  have "(\<lambda>i. id_s (s ! i)) ` set [0..<length s] = id_s ` set s"
    by (metis image_image list.set_map map_nth)
  then show ?thesis
    unfolding shapeMap_def by (simp only: fold_upd_dom dom_empty Un_empty_left)
qed

lemma shapeMap_None: "shapeMap s k = None \<longleftrightarrow> k \<notin> id_s ` set s"
  by (metis domIff shapeMap_dom)

lemma fst_resolve_order:
  "fst (resolve_order m ids) = map (\<lambda>k. the (m k)) (filter (\<lambda>k. m k \<noteq> None) ids)"
  by (induction ids) (auto split: prod.splits option.splits)

lemma snd_resolve_order:
  "snd (resolve_order m ids) = map WarnNotFound (filter (\<lambda>k. m k = None) ids)"
  by (induction ids) (auto split: prod.splits option.splits)

lemma orderedShapes_of_eq:
  "orderedShapes_of s ids
     = map (\<lambda>k. the (shapeMap s k)) (filter (\<lambda>k. k \<in> id_s ` set s) ids)"
  by (simp add: orderedShapes_of_def fst_resolve_order shapeMap_None)

lemma orderedShapes_of_valid:
  "i \<in> set (orderedShapes_of s ids) \<Longrightarrow> i < length s"
  by (auto simp: orderedShapes_of_def fst_resolve_order dest: shapeMap_Some)

lemma orderedShapes_of_distinct:
  assumes "distinct ids"
  shows "distinct (orderedShapes_of s ids)"
proof -
  have "inj_on (\<lambda>k. the (shapeMap s k)) {k. shapeMap s k \<noteq> None}"
  proof (rule inj_onI)
    fix k k'
    assume "k \<in> {k. shapeMap s k \<noteq> None}" "k' \<in> {k. shapeMap s k \<noteq> None}"
    then obtain i i' where i: "shapeMap s k = Some i" "shapeMap s k' = Some i'"
      by auto
    moreover assume "the (shapeMap s k) = the (shapeMap s k')"
    ultimately have "i = i'" by simp
    with i shapeMap_Some [of s k i] shapeMap_Some [of s k' i'] show "k = k'"
      by simp
  qed
  then have "inj_on (\<lambda>k. the (shapeMap s k)) (set (filter (\<lambda>k. shapeMap s k \<noteq> None) ids))"
    by (rule inj_on_subset) auto
  with assms show ?thesis
    by (simp add: orderedShapes_of_def fst_resolve_order distinct_map)
qed

lemma orderedShapes_of_filter:
  "orderedShapes_of s (filter (\<lambda>k. k \<in> id_s ` set s) ids) = orderedShapes_of s ids"
  by (simp add: orderedShapes_of_eq)

lemma arrangeShapesInOrder_snd:
  "snd (arrangeShapesInOrder ids t s) =
     (if length (orderedShapes_of s ids) < 2 then s
      else arrange_positions t (orderedShapes_of s ids) s)"
  by (simp add: arrangeShapesInOrder_def orderedShapes_of_def Let_def split: prod.splits)

lemma arrangeShapesInOrder_fst:
  "fst (arrangeShapesInOrder ids t s) =
     [LogArranging (length ids) t, LogShapeOrder ids]
     @ map WarnNotFound (filter (\<lambda>k. k \<notin> id_s ` set s) ids)
     @ [Log (if length (orderedShapes_of s ids) < 2
             then ''Need at least 2 shapes to arrange'' else ''Arrangement complete'')]"
proof -
  obtain os ws where r: "resolve_order (shapeMap s) ids = (os, ws)"
    by (cases "resolve_order (shapeMap s) ids")
  have "ws = map WarnNotFound (filter (\<lambda>k. k \<notin> id_s ` set s) ids)"
    using snd_resolve_order [of "shapeMap s" ids] r by (simp add: shapeMap_None)
  with r show ?thesis
    by (simp add: arrangeShapesInOrder_def orderedShapes_of_def Let_def)
qed

lemma arrange_positions_other:
  "t \<noteq> ''horizontal_center'' \<Longrightarrow> t \<noteq> ''vertical_center'' \<Longrightarrow>
   t \<noteq> ''horizontal_distribute'' \<Longrightarrow> t \<noteq> ''vertical_distribute'' \<Longrightarrow>
   arrange_positions t ord s = s"
  by (simp add: arrange_positions_def Let_def)

lemma align_positions_other:
  "t \<noteq> ''horizontal_center'' \<Longrightarrow> t \<noteq> ''vertical_center'' \<Longrightarrow>
   t \<noteq> ''horizontal_distribute'' \<Longrightarrow> t \<noteq> ''vertical_distribute'' \<Longrightarrow>
   align_positions t items s = s"
  by (simp add: align_positions_def)

lemma alignShapes_snd:
  "2 \<le> length items \<Longrightarrow> snd (alignShapes t items s) = align_positions t items s"
  by (simp add: alignShapes_def)

lemma alignShapes_few: "length items < 2 \<Longrightarrow> snd (alignShapes t items s) = s"
  by (simp add: alignShapes_def)

lemma align_positions_horizontal_center:
  "align_positions ''horizontal_center'' items s =
     center_left_loop (ddiv (sumCenterX s items) (dnat (length items))) items s"
  by (simp add: align_positions_def)


lemma align_positions_horizontal_distribute:
  "align_positions ''horizontal_distribute'' items s =
     distribute_left_loop
       (ddiv (dsub (dsub (dnat 960) (dmul (dnat 2) (dnat 40))) (totalShapeWidth s items))
          (dsub (dnat (length items)) (dnat 1)))
       (sort_cmp (\<lambda>a b. dsub (left (s ! a)) (left (s ! b))) items) (dnat 40) s"
  by (simp add: align_positions_def Let_def slideWidth_def margin_def)

lemma align_positions_vertical_distribute:
  "align_positions ''vertical_distribute'' items s =
     distribute_top_loop
       (ddiv (dsub (dsub (dnat 540) (dmul (dnat 2) (dnat 40))) (totalShapeHeight s items))
          (dsub (dnat (length items)) (dnat 1)))
       (sort_cmp (\<lambda>a b. dsub (top_s (s ! a)) (top_s (s ! b))) items) (dnat 40) s"
  by (simp add: align_positions_def Let_def slideHeight_def margin_def)

lemma arrange_positions_horizontal_distribute:
  "arrange_positions ''horizontal_distribute'' ord s =
     arrange_left_loop
       (ddiv (dsub (dsub (dnat 960) (dmul (dnat 2) (dnat 40))) (totalShapeWidth s ord))
          (dsub (dnat (length ord)) (dnat 1)))
       (ddiv (sumCenterY s ord) (dnat (length ord)))
       ord (dnat 40) s"
  by (simp add: arrange_positions_def Let_def slideWidth_def margin_def)

lemma arrange_positions_vertical_distribute:
  "arrange_positions ''vertical_distribute'' ord s =
     arrange_top_loop
       (ddiv (dsub (dsub (dnat 540) (dmul (dnat 2) (dnat 40))) (totalShapeHeight s ord))
          (dsub (dnat (length ord)) (dnat 1)))
       (ddiv (sumCenterX s ord) (dnat (length ord)))
       ord (dnat 40) s"
  by (simp add: arrange_positions_def Let_def slideHeight_def margin_def)



section \<open>The example slides\<close>

lemma shapeMap_three_boxes: "shapeMap three_boxes = [''A'' \<mapsto> 0, ''B'' \<mapsto> 1, ''C'' \<mapsto> 2]"
  by (simp add: shapeMap_def three_boxes_def upt_rec numeral_2_eq_2)

lemmas run_defs = alignShapes_def align_positions_def arrangeShapesInOrder_def
  arrange_positions_def sumCenterX_def sumCenterY_def totalShapeWidth_def totalShapeHeight_def
  slideWidth_def slideHeight_def margin_def sort_cmp_def

lemma shapeMap_banner_pair: "shapeMap banner_pair = [''a'' \<mapsto> 0, ''b'' \<mapsto> 1]"
  by (simp add: shapeMap_def banner_pair_def upt_rec)

lemma shapeMap_two_apart: "shapeMap two_apart = [''a'' \<mapsto> 0, ''b'' \<mapsto> 1]"
  by (simp add: shapeMap_def two_apart_def upt_rec)

lemma shapeMap_thirds: "shapeMap thirds = [''a'' \<mapsto> 0, ''b'' \<mapsto> 1, ''c'' \<mapsto> 2]"
  by (simp add: shapeMap_def thirds_def upt_rec numeral_2_eq_2)


lemma dnat_0: "dnat 0 = Finite 0"
  by (simp add: dnat_def)

lemma two_apart_horizontal_center:
  "snd (alignShapes ''horizontal_center'' [0, 1] two_apart) =
     [\<lparr>id_s = ''a'', left = dnat 50, top_s = dnat 0, width = dnat 10, height = dnat 10\<rparr>,
      \<lparr>id_s = ''b'', left = dnat 50, top_s = dnat 100, width = dnat 10, height = dnat 10\<rparr>]"
  by (simp add: run_defs two_apart_def dnat_dbl [of 0] dbl_eval)


lemma thirds_mean:
  "ddiv (sumCenterX thirds [0, 1, 2]) (dnat 3) = dbl 8256599316845909 (- 51)"
  "ddiv (sumCenterY thirds [0, 1, 2]) (dnat 3) = dbl 8256599316845909 (- 51)"
  by (simp_all add: run_defs thirds_def dnat_dbl [of "- 51"] dbl_eval)

lemma thirds_horizontal_center:
  "snd (alignShapes ''horizontal_center'' [0, 1, 2] thirds) =
     [\<lparr>id_s = ''a'', left = dbl 6004799503160661 (- 51), top_s = dnat 0,
        width = dnat 2, height = dnat 2\<rparr>,
      \<lparr>id_s = ''b'', left = dbl (- 9757799192636076) (- 51), top_s = dnat 1,
        width = dnat 16, height = dnat 16\<rparr>,
      \<lparr>id_s = ''c'', left = dbl 6004799503160661 (- 51), top_s = dnat 0,
        width = dnat 2, height = dnat 2\<rparr>]"
proof -
  have a: "dsub (dbl 8256599316845909 (- 51)) (ddiv (dnat 2) (dnat 2))
      = dbl 6004799503160661 (- 51)"
    by (simp add: dnat_dbl [of "- 51"] dbl_eval)
  have b: "dsub (dbl 8256599316845909 (- 51)) (ddiv (dnat 16) (dnat 2))
      = dbl (- 9757799192636076) (- 51)"
    by (simp add: dnat_dbl [of "- 51"] dbl_eval)
  have "length [0::nat, 1, 2] = 3" by simp
  then have len: "dnat (length [0::nat, 1, 2]) = dnat 3" by (rule arg_cong)
  have s1: "snd (alignShapes ''horizontal_center'' [0, 1, 2] thirds)
      = align_positions ''horizontal_center'' [0, 1, 2] thirds"
    by (rule alignShapes_snd) simp
  show ?thesis
    unfolding s1 align_positions_horizontal_center len thirds_mean
    by (simp add: thirds_def a b)
qed



lemma banner_pair_gap:
  "ddiv (dsub (dsub (dnat 960) (dmul (dnat 2) (dnat 40))) (totalShapeWidth banner_pair [0, 1]))
     (dsub (dnat (length [0::nat, 1])) (dnat 1)) = dbl (- 30) 0"
  by (simp add: run_defs banner_pair_def dnat_dbl [of 0] dbl_eval)

lemma banner_pair_horizontal_distribute:
  "snd (alignShapes ''horizontal_distribute'' [0, 1] banner_pair) =
     [\<lparr>id_s = ''a'', left = dnat 40, top_s = dnat 0, width = dnat 10, height = dnat 10\<rparr>,
      \<lparr>id_s = ''b'', left = dnat 20, top_s = dnat 20, width = dnat 900, height = dnat 30\<rparr>]"
  by (simp add: run_defs banner_pair_def dnat_dbl [of 0] dbl_eval dsub_def [symmetric])

lemma four_wide_gap:
  "ddiv (dsub (dsub (dnat 960) (dmul (dnat 2) (dnat 40))) (totalShapeWidth four_wide [0, 1, 2, 3]))
     (dsub (dnat (length [0::nat, 1, 2, 3])) (dnat 1)) = dbl 5441849549739349 (- 45)"
  by (simp add: run_defs four_wide_def dnat_dbl [of "- 45"] dbl_eval)

lemma four_wide_sorted:
  "sort_cmp (\<lambda>a b. dsub (left (four_wide ! a)) (left (four_wide ! b))) [0, 1, 2, 3] = [0, 1, 2, 3]"
  by (simp add: sort_cmp_def four_wide_def dnat_dbl [of 0] dbl_eval)

lemma four_wide_slots:
  "dadd (dnat 40) (dadd (dnat 32) (dbl 5441849549739349 (- 45))) = dbl 7975124340135253 (- 45)"
  "dadd (dbl 7975124340135253 (- 45)) (dadd (dnat 84) (dbl 5441849549739349 (- 45)))
     = dbl 16372461145336490 (- 45)"
  "dadd (dbl 16372461145336490 (- 45)) (dadd (dnat 186) (dbl 5441849549739349 (- 45)))
     = dnat 806"
  by (simp_all add: dnat_dbl [of "- 45"] dbl_eval)

lemma four_wide_horizontal_distribute:
  "map left (snd (alignShapes ''horizontal_distribute'' [0, 1, 2, 3] four_wide)) =
     [dnat 40, dbl 7975124340135253 (- 45), dbl 16372461145336490 (- 45), dnat 806]"
proof -
  have s1: "snd (alignShapes ''horizontal_distribute'' [0, 1, 2, 3] four_wide)
      = align_positions ''horizontal_distribute'' [0, 1, 2, 3] four_wide"
    by (rule alignShapes_snd) simp
  show ?thesis
    unfolding s1 align_positions_horizontal_distribute four_wide_gap four_wide_sorted
    by (simp add: four_wide_def Let_def four_wide_slots)
qed

lemma three_boxes_ordered:
  "snd (arrangeShapesInOrder [''A'', ''B'', ''C''] ''horizontal_distribute'' three_boxes) =
     [\<lparr>id_s = ''A'', left = dnat 40, top_s = dnat 0, width = dnat 50, height = dnat 50\<rparr>,
      \<lparr>id_s = ''B'', left = dnat 455, top_s = dnat 0, width = dnat 50, height = dnat 50\<rparr>,
      \<lparr>id_s = ''C'', left = dnat 870, top_s = dnat 0, width = dnat 50, height = dnat 50\<rparr>]"
  by (simp add: run_defs shapeMap_three_boxes Let_def)
     (simp add: three_boxes_def dnat_dbl [of 0] dbl_eval)

lemma take_in_butlast:
  assumes "k < length xs" "x \<in> set (take k xs)"
  shows "x \<in> set (butlast xs)"
proof -
  have "take k xs = take k (butlast xs)" using assms(1) by (simp add: take_butlast)
  with assms(2) show ?thesis by (metis in_set_takeD)
qed

lemma banner_pair_reversed:
  "orderedShapes_of banner_pair [''b'', ''a''] = [1, 0]"
  by (simp add: orderedShapes_of_def shapeMap_banner_pair)

lemma banner_pair_reversed_gap:
  "ddiv (dsub (dsub (dnat 960) (dmul (dnat 2) (dnat 40))) (totalShapeWidth banner_pair [1, 0]))
     (dsub (dnat (length [1::nat, 0])) (dnat 1)) = dbl (- 30) 0"
  by (simp add: run_defs banner_pair_def dnat_dbl [of 0] dbl_eval)

lemma ordered_banner_pair:
  "snd (arrangeShapesInOrder [''a'', ''b''] ''horizontal_distribute'' banner_pair) =
     [\<lparr>id_s = ''a'', left = dnat 40, top_s = dnat 15, width = dnat 10, height = dnat 10\<rparr>,
      \<lparr>id_s = ''b'', left = dnat 20, top_s = dnat 5, width = dnat 900, height = dnat 30\<rparr>]"
  by (simp add: run_defs shapeMap_banner_pair Let_def)
     (simp add: banner_pair_def dnat_dbl [of 0] dbl_eval)

lemma ordered_three_boxes_repeat:
  "snd (arrangeShapesInOrder [''A'', ''B'', ''A''] ''horizontal_distribute'' three_boxes) =
     [\<lparr>id_s = ''A'', left = dnat 870, top_s = dnat 0, width = dnat 50, height = dnat 50\<rparr>,
      \<lparr>id_s = ''B'', left = dnat 455, top_s = dnat 0, width = dnat 50, height = dnat 50\<rparr>,
      \<lparr>id_s = ''C'', left = dnat 250, top_s = dnat 0, width = dnat 50, height = dnat 50\<rparr>]"
  by (simp add: run_defs shapeMap_three_boxes Let_def)
     (simp add: three_boxes_def dnat_dbl [of 0] dbl_eval)

lemma thirds_ordered:
  "orderedShapes_of thirds [''a'', ''b'', ''c''] = [0, 1, 2]"
  by (simp add: orderedShapes_of_def shapeMap_thirds)







section \<open>The claims\<close>

subsection \<open>Centre alignment of the selection\<close>

text \<open>
  Claim C1, as the code has it. For a selection of at least two shapes, \<open>alignShapes\<close>
  with \<open>horizontal_center\<close> sets the left edge of every selected shape to the mean of the
  horizontal centres (left + width / 2) of the selection before the call, minus half the
  width of the shape. The mean is the sum accumulated from the first shape to the last,
  divided by the count, and every operation rounds as the binary64 operation does. The call
  changes neither the top edge, nor the width, nor the height, nor the id of any shape of
  the slide. The mode moves the shapes onto one vertical line: the vertical position is
  the one that is untouched, and the vertical centres stay apart. The horizontal centre
  computed back from the new left edge is the mean up to rounding only: on the slide
  \<open>thirds\<close> it is one unit in the last place below the mean.
\<close>

theorem horizontal_center_sets_left:
  assumes sel: "selection_of s items" and n: "2 \<le> length items"
  shows "length (snd (alignShapes ''horizontal_center'' items s)) = length s
    \<and> (\<forall>i \<in> set items.
          left (snd (alignShapes ''horizontal_center'' items s) ! i)
          = dsub (ddiv (sumCenterX s items) (dnat (length items)))
              (ddiv (width (s ! i)) (dnat 2)))
    \<and> (\<forall>j < length s.
          top_s (snd (alignShapes ''horizontal_center'' items s) ! j) = top_s (s ! j)
        \<and> width (snd (alignShapes ''horizontal_center'' items s) ! j) = width (s ! j)
        \<and> height (snd (alignShapes ''horizontal_center'' items s) ! j) = height (s ! j)
        \<and> id_s (snd (alignShapes ''horizontal_center'' items s) ! j) = id_s (s ! j))"
proof -
  let ?a = "ddiv (sumCenterX s items) (dnat (length items))"
  have r: "snd (alignShapes ''horizontal_center'' items s) = center_left_loop ?a items s"
    using n by (simp add: alignShapes_snd align_positions_horizontal_center)
  have "left (center_left_loop ?a items s ! i) = dsub ?a (ddiv (width (s ! i)) (dnat 2))"
    if "i \<in> set items" for i
    using that selection_ofD [OF sel that] by (simp add: center_left_loop_nth)
  moreover have "top_s (center_left_loop ?a items s ! j) = top_s (s ! j)
        \<and> width (center_left_loop ?a items s ! j) = width (s ! j)
        \<and> height (center_left_loop ?a items s ! j) = height (s ! j)
        \<and> id_s (center_left_loop ?a items s ! j) = id_s (s ! j)"
    if "j < length s" for j
    using that by (simp add: center_left_loop_nth)
  ultimately show ?thesis unfolding r by simp
qed

theorem horizontal_center_sets_left_witness:
  "selection_of two_apart [0, 1] \<and> 2 \<le> length [0::nat, 1]
   \<and> left (snd (alignShapes ''horizontal_center'' [0, 1] two_apart) ! 1) = dnat 50
   \<and> top_s (snd (alignShapes ''horizontal_center'' [0, 1] two_apart) ! 1) = dnat 100"
proof -
  have h: "selection_of two_apart [0, 1]"
    by (simp add: selection_of_def two_apart_def)
  have n: "2 \<le> length [0::nat, 1]" by simp
  note t = horizontal_center_sets_left [OF h n]
  have "(1::nat) \<in> set [0, 1]" by simp
  with t have "left (snd (alignShapes ''horizontal_center'' [0, 1] two_apart) ! 1)
       = dsub (ddiv (sumCenterX two_apart [0, 1]) (dnat (length [0::nat, 1])))
           (ddiv (width (two_apart ! 1)) (dnat 2))"
    by blast
  also have "\<dots> = dnat 50"
    by (simp add: run_defs two_apart_def dnat_dbl [of 0] dbl_eval)
  finally have c: "left (snd (alignShapes ''horizontal_center'' [0, 1] two_apart) ! 1) = dnat 50" .
  have "1 < length two_apart" by (simp add: two_apart_def)
  with t have "top_s (snd (alignShapes ''horizontal_center'' [0, 1] two_apart) ! 1)
       = top_s (two_apart ! 1)"
    by blast
  also have "\<dots> = dnat 100" by (simp add: two_apart_def)
  finally have d: "top_s (snd (alignShapes ''horizontal_center'' [0, 1] two_apart) ! 1) = dnat 100" .
  from h n c d show ?thesis by (intro conjI)
qed

theorem horizontal_center_vertical_counterexample:
  "dadd (top_s (snd (alignShapes ''horizontal_center'' [0, 1] two_apart) ! 0))
     (ddiv (height (snd (alignShapes ''horizontal_center'' [0, 1] two_apart) ! 0)) (dnat 2))
     = dnat 5
   \<and> ddiv (sumCenterY two_apart [0, 1]) (dnat 2) = dnat 55
   \<and> left (two_apart ! 0) = dnat 0
   \<and> left (snd (alignShapes ''horizontal_center'' [0, 1] two_apart) ! 0) = dnat 50
   \<and> dadd (left (snd (alignShapes ''horizontal_center'' [0, 1, 2] thirds) ! 1))
       (ddiv (width (snd (alignShapes ''horizontal_center'' [0, 1, 2] thirds) ! 1)) (dnat 2))
     = dbl 8256599316845908 (- 51)
   \<and> ddiv (sumCenterX thirds [0, 1, 2]) (dnat 3) = dbl 8256599316845909 (- 51)"
proof -
  have a: "ddiv (sumCenterY two_apart [0, 1]) (dnat 2) = dnat 55"
    by (simp add: run_defs two_apart_def dnat_dbl [of 0] dbl_eval)
  have b: "dadd (dnat 0) (ddiv (dnat 10) (dnat 2)) = dnat 5"
    by (simp add: dnat_dbl [of 0] dbl_eval)
  have c: "dadd (dbl (- 9757799192636076) (- 51)) (ddiv (dnat 16) (dnat 2))
      = dbl 8256599316845908 (- 51)"
    by (simp add: dnat_dbl [of "- 51"] dbl_eval)
  show ?thesis
    unfolding two_apart_horizontal_center thirds_horizontal_center thirds_mean a
    by (simp add: b c two_apart_def)
qed




subsection \<open>Distribution of the selection\<close>

text \<open>
  Claim C2, as the code has it. For a selection of at least two shapes whose left edges
  are finite numbers, \<open>alignShapes\<close> with \<open>horizontal_distribute\<close> works on the
  selection sorted by the left edge before the call: \<open>srt\<close> is a permutation of the
  selection, ascending in the left edge, and shapes with equal left edges keep the order
  of the selection (the sort is stable). The first shape of \<open>srt\<close> is put at the margin
  40; each later one at the left edge of the one before, plus the sum of its width and the
  gap, where the gap is (960 - 2 * 40 - sum of the widths) / (count - 1) and every
  operation rounds as the binary64 operation does. Nothing is assumed of the sign of the
  gap: it is not clamped. No width of the slide changes. The positions are not the exact
  values of the formula: on the slide \<open>four_wide\<close> the gap 464 / 3 is rounded, and the
  second left edge is not 40 + 32 + 464 / 3.
\<close>

theorem horizontal_distribute_sorted_placement:
  assumes sel: "selection_of s items" and n: "2 \<le> length items"
    and fin: "\<forall>i \<in> set items. dfinite (left (s ! i))"
  shows "\<exists>srt.
      mset srt = mset items
    \<and> sorted (map (\<lambda>i. ival (left (s ! i))) srt)
    \<and> (\<forall>v. filter (\<lambda>i. ival (left (s ! i)) = v) srt
            = filter (\<lambda>i. ival (left (s ! i)) = v) items)
    \<and> left (snd (alignShapes ''horizontal_distribute'' items s) ! (srt ! 0)) = dnat 40
    \<and> (\<forall>k. Suc k < length srt \<longrightarrow>
          left (snd (alignShapes ''horizontal_distribute'' items s) ! (srt ! Suc k))
          = dadd (left (snd (alignShapes ''horizontal_distribute'' items s) ! (srt ! k)))
              (dadd (width (s ! (srt ! k)))
                 (ddiv (dsub (dsub (dnat 960) (dmul (dnat 2) (dnat 40)))
                          (totalShapeWidth s items))
                    (dsub (dnat (length items)) (dnat 1)))))
    \<and> (\<forall>j < length s.
          width (snd (alignShapes ''horizontal_distribute'' items s) ! j) = width (s ! j))"
proof -
  let ?gap = "ddiv (dsub (dsub (dnat 960) (dmul (dnat 2) (dnat 40))) (totalShapeWidth s items))
                (dsub (dnat (length items)) (dnat 1))"
  let ?srt = "sort_key (\<lambda>i. ival (left (s ! i))) items"
  let ?r = "distribute_left_loop ?gap ?srt (dnat 40) s"
  have srt: "sort_cmp (\<lambda>a b. dsub (left (s ! a)) (left (s ! b))) items = ?srt"
    using fin by (rule sort_cmp_sort_key [of items "\<lambda>i. left (s ! i)"])
  have r: "snd (alignShapes ''horizontal_distribute'' items s) = ?r"
    using n by (simp add: alignShapes_snd align_positions_horizontal_distribute srt)
  have d: "distinct ?srt" using sel by (simp add: selection_of_def)
  have v: "\<forall>i \<in> set ?srt. i < length s"
    using sel by (simp add: selection_of_def list_all_iff)
  have pos: "left (?r ! (?srt ! k))
      = slot_after ?gap (map (\<lambda>i. width (s ! i)) (take k ?srt)) (dnat 40)"
    if "k < length ?srt" for k
    using distribute_left_loop_left [OF d v that] .
  have "0 < length ?srt" using n by (cases items) simp_all
  from pos [OF this] have first: "left (?r ! (?srt ! 0)) = dnat 40"
    by simp
  have next_one: "left (?r ! (?srt ! Suc k))
      = dadd (left (?r ! (?srt ! k))) (dadd (width (s ! (?srt ! k))) ?gap)"
    if "Suc k < length ?srt" for k
  proof -
    have "k < length ?srt" using that by simp
    then show ?thesis
      using pos [OF that] pos [OF \<open>k < length ?srt\<close>]
      by (simp add: take_Suc_conv_app_nth slot_after_snoc)
  qed
  have w: "width (?r ! j) = width (s ! j)" if "j < length s" for j
    using distribute_left_loop_frame [OF that] by simp
  have "mset ?srt = mset items" by simp
  moreover have "sorted (map (\<lambda>i. ival (left (s ! i))) ?srt)" by simp
  moreover have "\<forall>v. filter (\<lambda>i. ival (left (s ! i)) = v) ?srt
      = filter (\<lambda>i. ival (left (s ! i)) = v) items"
    by (simp add: sort_key_stable)
  ultimately show ?thesis
    unfolding r using first next_one w by blast
qed

theorem horizontal_distribute_sorted_placement_witness:
  "selection_of banner_pair [0, 1] \<and> 2 \<le> length [0::nat, 1]
   \<and> dfinite (left (banner_pair ! 0)) \<and> dfinite (left (banner_pair ! 1))
   \<and> (\<exists>srt. mset srt = mset [0, 1]
         \<and> sorted (map (\<lambda>i. ival (left (banner_pair ! i))) srt)
         \<and> left (snd (alignShapes ''horizontal_distribute'' [0, 1] banner_pair) ! (srt ! 0))
             = dnat 40
         \<and> left (snd (alignShapes ''horizontal_distribute'' [0, 1] banner_pair) ! (srt ! Suc 0))
             = dadd (left (snd (alignShapes ''horizontal_distribute'' [0, 1] banner_pair)
                            ! (srt ! 0)))
                 (dadd (width (banner_pair ! (srt ! 0))) (dbl (- 30) 0)))
   \<and> snd (alignShapes ''horizontal_distribute'' [0, 1] banner_pair) =
       [\<lparr>id_s = ''a'', left = dnat 40, top_s = dnat 0, width = dnat 10, height = dnat 10\<rparr>,
        \<lparr>id_s = ''b'', left = dnat 20, top_s = dnat 20, width = dnat 900, height = dnat 30\<rparr>]"
proof -
  have h: "selection_of banner_pair [0, 1]"
    by (simp add: selection_of_def banner_pair_def)
  have n: "2 \<le> length [0::nat, 1]" by simp
  have f: "dfinite (left (banner_pair ! 0))" "dfinite (left (banner_pair ! 1))"
    by (simp_all add: banner_pair_def)
  then have fin: "\<forall>i \<in> set [0::nat, 1]. dfinite (left (banner_pair ! i))" by simp
  from horizontal_distribute_sorted_placement [OF h n fin]
  obtain srt where m: "mset srt = mset [0, 1]"
    and s: "sorted (map (\<lambda>i. ival (left (banner_pair ! i))) srt)"
    and p: "left (snd (alignShapes ''horizontal_distribute'' [0, 1] banner_pair) ! (srt ! 0))
             = dnat 40"
    and r: "\<forall>k. Suc k < length srt \<longrightarrow>
          left (snd (alignShapes ''horizontal_distribute'' [0, 1] banner_pair) ! (srt ! Suc k))
          = dadd (left (snd (alignShapes ''horizontal_distribute'' [0, 1] banner_pair)
                         ! (srt ! k)))
              (dadd (width (banner_pair ! (srt ! k)))
                 (ddiv (dsub (dsub (dnat 960) (dmul (dnat 2) (dnat 40)))
                          (totalShapeWidth banner_pair [0, 1]))
                    (dsub (dnat (length [0::nat, 1])) (dnat 1))))"
    by blast
  have "length srt = length [0::nat, 1]" using m by (rule mset_eq_length)
  then have "Suc 0 < length srt" by simp
  note r0 = r [rule_format, OF this, unfolded banner_pair_gap]
  from m s p r0 have "\<exists>srt. mset srt = mset [0, 1]
         \<and> sorted (map (\<lambda>i. ival (left (banner_pair ! i))) srt)
         \<and> left (snd (alignShapes ''horizontal_distribute'' [0, 1] banner_pair) ! (srt ! 0))
             = dnat 40
         \<and> left (snd (alignShapes ''horizontal_distribute'' [0, 1] banner_pair) ! (srt ! Suc 0))
             = dadd (left (snd (alignShapes ''horizontal_distribute'' [0, 1] banner_pair)
                            ! (srt ! 0)))
                 (dadd (width (banner_pair ! (srt ! 0))) (dbl (- 30) 0))"
    by (intro exI [of _ srt] conjI)
  then show ?thesis
    by (intro conjI h n f banner_pair_horizontal_distribute)
qed

theorem horizontal_distribute_rounding_counterexample:
  "rval (left (snd (alignShapes ''horizontal_distribute'' [0, 1, 2, 3] four_wide) ! 0)) = 40
   \<and> rval (width (four_wide ! 0)) = 32
   \<and> rval (left (snd (alignShapes ''horizontal_distribute'' [0, 1, 2, 3] four_wide) ! 1))
       = 7975124340135253 / 2 ^ 45
   \<and> (7975124340135253 / 2 ^ 45 :: real)
       \<noteq> 40 + 32 + (960 - 2 * 40 - (32 + 84 + 186 + 114)) / (4 - 1)"
proof -
  have l: "length (snd (alignShapes ''horizontal_distribute'' [0, 1, 2, 3] four_wide)) = 4"
    using arg_cong [OF four_wide_horizontal_distribute, of length] by simp
  have a: "left (snd (alignShapes ''horizontal_distribute'' [0, 1, 2, 3] four_wide) ! 0) = dnat 40"
    using arg_cong [OF four_wide_horizontal_distribute, of "\<lambda>xs. xs ! 0"] l by simp
  have b: "left (snd (alignShapes ''horizontal_distribute'' [0, 1, 2, 3] four_wide) ! 1)
      = dbl 7975124340135253 (- 45)"
    using arg_cong [OF four_wide_horizontal_distribute, of "\<lambda>xs. xs ! 1"] l by simp
  have w: "width (four_wide ! 0) = dnat 32" by (simp add: four_wide_def)
  show ?thesis
    unfolding a b w by (simp add: dnat_dbl [of 0] rval_dbl)
qed

text \<open>
  Claim C10. For every shape of the slide, \<open>alignShapes\<close> with
  \<open>horizontal_distribute\<close> leaves top, width and height as they were, and with
  \<open>vertical_distribute\<close> leaves left, width and height as they were; the number of
  shapes is unchanged. This holds for any selection, of two or more shapes in particular.
\<close>

theorem unordered_distribute_frame:
  assumes j: "j < length s"
  shows "top_s (snd (alignShapes ''horizontal_distribute'' items s) ! j) = top_s (s ! j)
       \<and> width (snd (alignShapes ''horizontal_distribute'' items s) ! j) = width (s ! j)
       \<and> height (snd (alignShapes ''horizontal_distribute'' items s) ! j) = height (s ! j)
       \<and> left (snd (alignShapes ''vertical_distribute'' items s) ! j) = left (s ! j)
       \<and> width (snd (alignShapes ''vertical_distribute'' items s) ! j) = width (s ! j)
       \<and> height (snd (alignShapes ''vertical_distribute'' items s) ! j) = height (s ! j)
       \<and> length (snd (alignShapes ''horizontal_distribute'' items s)) = length s
       \<and> length (snd (alignShapes ''vertical_distribute'' items s)) = length s"
proof (cases "2 \<le> length items")
  case True
  show ?thesis
    unfolding alignShapes_snd [OF True] align_positions_horizontal_distribute
      align_positions_vertical_distribute
    using distribute_left_loop_frame [OF j] distribute_top_loop_frame [OF j]
    by simp
next
  case False
  then have "length items < 2" by simp
  then show ?thesis by (simp add: alignShapes_few)
qed

theorem unordered_distribute_frame_witness:
  "1 < length three_boxes
   \<and> top_s (snd (alignShapes ''horizontal_distribute'' [0, 1, 2] three_boxes) ! 1) = dnat 0
   \<and> left (snd (alignShapes ''vertical_distribute'' [0, 1, 2] three_boxes) ! 1) = dnat 10"
proof -
  have j: "1 < length three_boxes" by (simp add: three_boxes_def)
  note t = unordered_distribute_frame [OF j, of "[0, 1, 2]"]
  from t have "top_s (snd (alignShapes ''horizontal_distribute'' [0, 1, 2] three_boxes) ! 1)
      = top_s (three_boxes ! 1)"
    by (rule conjunct1)
  also have "\<dots> = dnat 0" by (simp add: three_boxes_def)
  finally have a: "top_s (snd (alignShapes ''horizontal_distribute'' [0, 1, 2] three_boxes) ! 1)
      = dnat 0" .
  from t have "left (snd (alignShapes ''vertical_distribute'' [0, 1, 2] three_boxes) ! 1)
      = left (three_boxes ! 1)"
    by (elim conjE)
  also have "\<dots> = dnat 10" by (simp add: three_boxes_def)
  finally have b: "left (snd (alignShapes ''vertical_distribute'' [0, 1, 2] three_boxes) ! 1)
      = dnat 10" .
  from j a b show ?thesis by (intro conjI)
qed

subsection \<open>Nothing to do\<close>

text \<open>
  Claim C7, as the code has it. With fewer than two selected shapes \<open>alignShapes\<close>
  leaves the slide as it is and logs "Need at least 2 shapes to align"; with fewer than two
  resolved shapes \<open>arrangeShapesInOrder\<close> leaves the slide as it is and its last message
  is "Need at least 2 shapes to arrange". With a mode that is none of the four, both
  functions leave the slide as it is and return normally, and the console shows exactly
  what it shows for any mode: \<open>alignShapes\<close> writes nothing when two or more shapes are
  selected, and \<open>arrangeShapesInOrder\<close> ends with "Arrangement complete"; no message
  reports the unrecognised mode.
\<close>

theorem no_mutation_when_nothing_to_do:
  "(length items < 2 \<longrightarrow>
      alignShapes t items s = ([Log ''Need at least 2 shapes to align''], s))
   \<and> (length (orderedShapes_of s ids) < 2 \<longrightarrow>
        snd (arrangeShapesInOrder ids t s) = s
      \<and> last (fst (arrangeShapesInOrder ids t s)) = Log ''Need at least 2 shapes to arrange'')
   \<and> (t \<notin> {''horizontal_center'', ''vertical_center'',
             ''horizontal_distribute'', ''vertical_distribute''} \<longrightarrow>
        alignShapes t items s =
          (if length items < 2 then [Log ''Need at least 2 shapes to align''] else [], s)
      \<and> arrangeShapesInOrder ids t s =
          ([LogArranging (length ids) t, LogShapeOrder ids]
           @ map WarnNotFound (filter (\<lambda>k. k \<notin> id_s ` set s) ids)
           @ [Log (if length (orderedShapes_of s ids) < 2
                   then ''Need at least 2 shapes to arrange'' else ''Arrangement complete'')],
           s))"
proof -
  have "arrangeShapesInOrder ids t s
      = (fst (arrangeShapesInOrder ids t s), snd (arrangeShapesInOrder ids t s))"
    by simp
  then show ?thesis
    unfolding arrangeShapesInOrder_snd arrangeShapesInOrder_fst
    by (simp add: alignShapes_def arrange_positions_other align_positions_other
          arrangeShapesInOrder_snd arrangeShapesInOrder_fst)
qed

theorem no_mutation_when_nothing_to_do_witness:
  "length [0::nat] < 2
   \<and> length (orderedShapes_of two_apart [''a'', ''zz'']) < 2
   \<and> ''diagonal'' \<notin> {''horizontal_center'', ''vertical_center'',
                      ''horizontal_distribute'', ''vertical_distribute''}
   \<and> alignShapes ''diagonal'' [0] two_apart
       = ([Log ''Need at least 2 shapes to align''], two_apart)
   \<and> snd (arrangeShapesInOrder [''a'', ''zz''] ''diagonal'' two_apart) = two_apart
   \<and> last (fst (arrangeShapesInOrder [''a'', ''zz''] ''diagonal'' two_apart))
       = Log ''Need at least 2 shapes to arrange''"
proof -
  have a: "length [0::nat] < 2" by simp
  have b: "length (orderedShapes_of two_apart [''a'', ''zz'']) < 2"
    by (simp add: orderedShapes_of_def shapeMap_two_apart)
  have c: "''diagonal'' \<notin> {''horizontal_center'', ''vertical_center'',
                      ''horizontal_distribute'', ''vertical_distribute''}"
    by simp
  note t = no_mutation_when_nothing_to_do [of "[0]" "''diagonal''" two_apart "[''a'', ''zz'']"]
  note p1 = t [THEN conjunct1, THEN mp, OF a]
  note p2 = t [THEN conjunct2, THEN conjunct1, THEN mp, OF b]
  show ?thesis
    by (intro conjI a b c p1 p2 [THEN conjunct1] p2 [THEN conjunct2])
qed

theorem unsupported_mode_silent_counterexample:
  "alignShapes ''diagonal'' [0, 1] two_apart = ([], two_apart)
   \<and> arrangeShapesInOrder [''a'', ''b''] ''diagonal'' two_apart
       = ([LogArranging 2 ''diagonal'', LogShapeOrder [''a'', ''b''],
           Log ''Arrangement complete''], two_apart)"
  by (simp add: alignShapes_def align_positions_def arrangeShapesInOrder_def
        arrange_positions_def shapeMap_two_apart Let_def)

subsection \<open>Arrangement in a given order\<close>

text \<open>
  Claim C3, as the code has it. For the shapes A (left 500), B (left 10) and C (left 250),
  each 50 wide and 50 high at top 0, the order [A, B, C] and \<open>horizontal_distribute\<close>,
  the gap is (880 - 150) / 2 = 365 and the left edges after the call are A: 40, B: 455,
  C: 870; the tops stay 0. All these numbers are integers and no operation rounds.
\<close>

theorem ordered_example_lefts:
  "orderedShapes_of three_boxes [''A'', ''B'', ''C''] = [0, 1, 2]
   \<and> ddiv (dsub (dsub slideWidth (dmul (dnat 2) margin)) (totalShapeWidth three_boxes [0, 1, 2]))
        (dsub (dnat (length [0::nat, 1, 2])) (dnat 1)) = dnat 365
   \<and> snd (arrangeShapesInOrder [''A'', ''B'', ''C''] ''horizontal_distribute'' three_boxes) =
       [\<lparr>id_s = ''A'', left = dnat 40, top_s = dnat 0, width = dnat 50, height = dnat 50\<rparr>,
        \<lparr>id_s = ''B'', left = dnat 455, top_s = dnat 0, width = dnat 50, height = dnat 50\<rparr>,
        \<lparr>id_s = ''C'', left = dnat 870, top_s = dnat 0, width = dnat 50, height = dnat 50\<rparr>]"
proof (intro conjI)
  show "orderedShapes_of three_boxes [''A'', ''B'', ''C''] = [0, 1, 2]"
    by (simp add: orderedShapes_of_def shapeMap_three_boxes)
  show "ddiv (dsub (dsub slideWidth (dmul (dnat 2) margin)) (totalShapeWidth three_boxes [0, 1, 2]))
        (dsub (dnat (length [0::nat, 1, 2])) (dnat 1)) = dnat 365"
    by (simp add: run_defs three_boxes_def dnat_dbl [of 0] dbl_eval)
  show "snd (arrangeShapesInOrder [''A'', ''B'', ''C''] ''horizontal_distribute'' three_boxes) =
       [\<lparr>id_s = ''A'', left = dnat 40, top_s = dnat 0, width = dnat 50, height = dnat 50\<rparr>,
        \<lparr>id_s = ''B'', left = dnat 455, top_s = dnat 0, width = dnat 50, height = dnat 50\<rparr>,
        \<lparr>id_s = ''C'', left = dnat 870, top_s = dnat 0, width = dnat 50, height = dnat 50\<rparr>]"
    by (rule three_boxes_ordered)
qed

theorem ordered_example_counterexample:
  "dsub (left (snd (arrangeShapesInOrder [''A'', ''B'', ''C''] ''horizontal_distribute''
                     three_boxes) ! 1)) (dnat 430) = dnat 25
   \<and> dsub (left (snd (arrangeShapesInOrder [''A'', ''B'', ''C''] ''horizontal_distribute''
                       three_boxes) ! 2)) (dnat 820) = dnat 50"
  unfolding three_boxes_ordered by (simp add: dnat_dbl [of 0] dbl_eval)

text \<open>
  Claim C4, as the code has it. When the identifiers of the order resolve to at least two
  pairwise different shapes and, for every resolved shape but the last, the step from its
  slot to the next one (its width plus the gap, as the code computes it) is not negative,
  \<open>arrangeShapesInOrder\<close> with \<open>horizontal_distribute\<close> puts the first resolved shape
  at left 40 and the left edges do not descend along the order. Nothing is assumed of the
  left edges before the call, nor of the sign of the gap. With a negative step a later
  shape ends left of an earlier one, and a shape that is named twice ends in its last slot.
\<close>

theorem ordered_distribute_left_to_right:
  assumes d: "distinct (orderedShapes_of s ids)"
    and n: "2 \<le> length (orderedShapes_of s ids)"
    and inc: "\<forall>i \<in> set (butlast (orderedShapes_of s ids)).
        dle (dnat 0)
          (dadd (width (s ! i))
             (ddiv (dsub (dsub (dnat 960) (dmul (dnat 2) (dnat 40)))
                      (totalShapeWidth s (orderedShapes_of s ids)))
                (dsub (dnat (length (orderedShapes_of s ids))) (dnat 1))))"
  shows "left (snd (arrangeShapesInOrder ids ''horizontal_distribute'' s)
               ! (orderedShapes_of s ids ! 0)) = dnat 40
    \<and> (\<forall>j k. j \<le> k \<and> k < length (orderedShapes_of s ids) \<longrightarrow>
          dle (left (snd (arrangeShapesInOrder ids ''horizontal_distribute'' s)
                     ! (orderedShapes_of s ids ! j)))
              (left (snd (arrangeShapesInOrder ids ''horizontal_distribute'' s)
                     ! (orderedShapes_of s ids ! k))))"
proof -
  let ?ord = "orderedShapes_of s ids"
  let ?gap = "ddiv (dsub (dsub (dnat 960) (dmul (dnat 2) (dnat 40))) (totalShapeWidth s ?ord))
                (dsub (dnat (length ?ord)) (dnat 1))"
  let ?avg = "ddiv (sumCenterY s ?ord) (dnat (length ?ord))"
  let ?r = "arrange_left_loop ?gap ?avg ?ord (dnat 40) s"
  let ?W = "\<lambda>i. width (s ! i)"
  have n': "\<not> length ?ord < 2" using n by simp
  have r: "snd (arrangeShapesInOrder ids ''horizontal_distribute'' s) = ?r"
    unfolding arrangeShapesInOrder_snd if_not_P [OF n']
    by (rule arrange_positions_horizontal_distribute)
  have v: "\<forall>i \<in> set ?ord. i < length s"
    by (simp add: orderedShapes_of_valid)
  have pos: "left (?r ! (?ord ! k)) = slot_after ?gap (map ?W (take k ?ord)) (dnat 40)"
    if "k < length ?ord" for k
    using arrange_left_loop_left [OF d v that] .
  have "0 < length ?ord" using n by (cases ?ord) simp_all
  from pos [OF this] have first: "left (?r ! (?ord ! 0)) = dnat 40" by simp
  have v40: "dvalid (dnat 40)" by (rule dvalid_dnat) simp
  have p40: "dle (Finite 0) (dnat 40)" by (simp add: dnat_def)
  have mono: "dle (left (?r ! (?ord ! j))) (left (?r ! (?ord ! k)))"
    if jk: "j \<le> k" and k: "k < length ?ord" for j k
  proof -
    have j: "j < length ?ord" using jk k by simp
    let ?cj = "slot_after ?gap (map ?W (take j ?ord)) (dnat 40)"
    have incj: "\<forall>w \<in> set (map ?W (take j ?ord)). dle (Finite 0) (dadd w ?gap)"
      using inc take_in_butlast [OF j] by (auto simp: dnat_0)
    have cj: "dvalid ?cj" "dle (Finite 0) ?cj"
      using slot_after_increase [OF v40 p40 incj] by simp_all
    have "take j (take k ?ord) = take j ?ord" using jk by (simp add: min_def)
    then have split: "take k ?ord = take j ?ord @ drop j (take k ?ord)"
      by (metis append_take_drop_id)
    have inck: "\<forall>w \<in> set (map ?W (drop j (take k ?ord))). dle (Finite 0) (dadd w ?gap)"
      using inc take_in_butlast [OF k] by (auto simp: dnat_0 dest: in_set_dropD)
    have "slot_after ?gap (map ?W (take k ?ord)) (dnat 40)
        = slot_after ?gap (map ?W (drop j (take k ?ord))) ?cj"
      by (subst split) (simp only: map_append slot_after_append)
    moreover have "dle ?cj (slot_after ?gap (map ?W (drop j (take k ?ord))) ?cj)"
      using slot_after_increase [OF cj inck] by simp
    ultimately show ?thesis by (simp only: pos [OF j] pos [OF k])
  qed
  show ?thesis unfolding r using first mono by blast
qed

theorem ordered_distribute_left_to_right_witness:
  "distinct (orderedShapes_of banner_pair [''b'', ''a''])
   \<and> 2 \<le> length (orderedShapes_of banner_pair [''b'', ''a''])
   \<and> dle (dnat 0) (dadd (width (banner_pair ! 1)) (dbl (- 30) 0))
   \<and> left (snd (arrangeShapesInOrder [''b'', ''a''] ''horizontal_distribute'' banner_pair) ! 1)
       = dnat 40
   \<and> dle (left (snd (arrangeShapesInOrder [''b'', ''a''] ''horizontal_distribute'' banner_pair) ! 1))
         (left (snd (arrangeShapesInOrder [''b'', ''a''] ''horizontal_distribute'' banner_pair) ! 0))"
proof -
  let ?ord = "orderedShapes_of banner_pair [''b'', ''a'']"
  have o: "?ord = [1, 0]" by (rule banner_pair_reversed)
  have d: "distinct ?ord" unfolding o by simp
  have n: "2 \<le> length ?ord" unfolding o by simp
  have i1: "dle (dnat 0) (dadd (width (banner_pair ! 1)) (dbl (- 30) 0))"
    by (simp add: banner_pair_def dnat_dbl [of 0] dbl_eval)
  have inc: "\<forall>i \<in> set (butlast ?ord).
        dle (dnat 0)
          (dadd (width (banner_pair ! i))
             (ddiv (dsub (dsub (dnat 960) (dmul (dnat 2) (dnat 40)))
                      (totalShapeWidth banner_pair ?ord))
                (dsub (dnat (length ?ord)) (dnat 1))))"
    unfolding o banner_pair_reversed_gap using i1 by simp
  note t = ordered_distribute_left_to_right [OF d n inc, unfolded o]
  have a: "left (snd (arrangeShapesInOrder [''b'', ''a''] ''horizontal_distribute'' banner_pair) ! 1)
       = dnat 40"
    using t [THEN conjunct1] by simp
  have "(0::nat) \<le> 1 \<and> 1 < length [1::nat, 0]" by simp
  from t [THEN conjunct2, rule_format, OF this]
  have b: "dle (left (snd (arrangeShapesInOrder [''b'', ''a''] ''horizontal_distribute'' banner_pair) ! 1))
         (left (snd (arrangeShapesInOrder [''b'', ''a''] ''horizontal_distribute'' banner_pair) ! 0))"
    by simp
  show ?thesis by (intro conjI d n i1 a b)
qed

theorem ordered_distribute_overflow_counterexample:
  "orderedShapes_of banner_pair [''a'', ''b''] = [0, 1]
   \<and> left (snd (arrangeShapesInOrder [''a'', ''b''] ''horizontal_distribute'' banner_pair) ! 0)
       = dnat 40
   \<and> left (snd (arrangeShapesInOrder [''a'', ''b''] ''horizontal_distribute'' banner_pair) ! 1)
       = dnat 20
   \<and> orderedShapes_of three_boxes [''A'', ''B'', ''A''] = [0, 1, 0]
   \<and> left (snd (arrangeShapesInOrder [''A'', ''B'', ''A''] ''horizontal_distribute'' three_boxes) ! 0)
       = dnat 870
   \<and> left (snd (arrangeShapesInOrder [''A'', ''B'', ''A''] ''horizontal_distribute'' three_boxes) ! 1)
       = dnat 455"
  unfolding ordered_banner_pair ordered_three_boxes_repeat
  by (simp add: orderedShapes_of_def shapeMap_banner_pair shapeMap_three_boxes)

text \<open>
  Claim C5, as the code has it. When the order resolves to at least two shapes, after
  \<open>arrangeShapesInOrder\<close> with \<open>horizontal_distribute\<close> the top edge of every resolved
  shape is the mean of the vertical centres (top + height / 2), before the call, over the
  list of resolved shapes, minus half the height of the shape, and its height is as
  before; after \<open>vertical_distribute\<close> the left edge of every resolved shape is the mean
  of the horizontal centres before the call over that list, minus half its width, and its
  width is as before. Every operation rounds as the binary64 operation does, so the centre
  computed back from the new edge is the mean up to rounding only: on the slide \<open>thirds\<close>
  it is \<open>8256599316845908 * 2\<^sup>-\<^sup>5\<^sup>1\<close>, which is neither the computed mean nor 11 / 3.
\<close>

theorem ordered_distribute_cross_axis:
  assumes n: "2 \<le> length (orderedShapes_of s ids)"
    and i: "i \<in> set (orderedShapes_of s ids)"
  shows "top_s (snd (arrangeShapesInOrder ids ''horizontal_distribute'' s) ! i)
         = dsub (ddiv (sumCenterY s (orderedShapes_of s ids))
                   (dnat (length (orderedShapes_of s ids))))
             (ddiv (height (s ! i)) (dnat 2))
       \<and> height (snd (arrangeShapesInOrder ids ''horizontal_distribute'' s) ! i) = height (s ! i)
       \<and> left (snd (arrangeShapesInOrder ids ''vertical_distribute'' s) ! i)
         = dsub (ddiv (sumCenterX s (orderedShapes_of s ids))
                   (dnat (length (orderedShapes_of s ids))))
             (ddiv (width (s ! i)) (dnat 2))
       \<and> width (snd (arrangeShapesInOrder ids ''vertical_distribute'' s) ! i) = width (s ! i)"
proof -
  have v: "i < length s" using i by (rule orderedShapes_of_valid)
  have n': "\<not> length (orderedShapes_of s ids) < 2" using n by simp
  show ?thesis
    unfolding arrangeShapesInOrder_snd if_not_P [OF n']
      arrange_positions_horizontal_distribute arrange_positions_vertical_distribute
    using arrange_left_loop_top [OF i v] arrange_top_loop_left [OF i v]
      arrange_left_loop_frame [OF v] arrange_top_loop_frame [OF v]
    by simp
qed

theorem ordered_distribute_cross_axis_witness:
  "2 \<le> length (orderedShapes_of banner_pair [''b'', ''a''])
   \<and> 0 \<in> set (orderedShapes_of banner_pair [''b'', ''a''])
   \<and> ddiv (sumCenterY banner_pair [1, 0]) (dnat (length [1::nat, 0])) = dnat 20
   \<and> top_s (snd (arrangeShapesInOrder [''b'', ''a''] ''horizontal_distribute'' banner_pair) ! 0)
       = dnat 15
   \<and> ddiv (sumCenterX banner_pair [1, 0]) (dnat (length [1::nat, 0])) = dbl 855 (- 1)
   \<and> left (snd (arrangeShapesInOrder [''b'', ''a''] ''vertical_distribute'' banner_pair) ! 0)
       = dbl 845 (- 1)"
proof -
  let ?ord = "orderedShapes_of banner_pair [''b'', ''a'']"
  have o: "?ord = [1, 0]" by (rule banner_pair_reversed)
  have n: "2 \<le> length ?ord" unfolding o by simp
  have i: "0 \<in> set ?ord" unfolding o by simp
  have y: "ddiv (sumCenterY banner_pair [1, 0]) (dnat (length [1::nat, 0])) = dnat 20"
    by (simp add: run_defs banner_pair_def dnat_dbl [of 0] dbl_eval)
  have x: "ddiv (sumCenterX banner_pair [1, 0]) (dnat (length [1::nat, 0])) = dbl 855 (- 1)"
    by (simp add: run_defs banner_pair_def dnat_dbl [of "- 1"] dbl_eval)
  have hy: "dsub (dnat 20) (ddiv (height (banner_pair ! 0)) (dnat 2)) = dnat 15"
    by (simp add: banner_pair_def dnat_dbl [of 0] dbl_eval)
  have hx: "dsub (dbl 855 (- 1)) (ddiv (width (banner_pair ! 0)) (dnat 2)) = dbl 845 (- 1)"
    by (simp add: banner_pair_def dnat_dbl [of "- 1"] dbl_eval)
  note t = ordered_distribute_cross_axis [OF n i, unfolded o x y hx hy]
  show ?thesis
    by (intro conjI n i x y t [THEN conjunct1] t [THEN conjunct2, THEN conjunct2, THEN conjunct1])
qed

theorem ordered_cross_axis_rounding_counterexample:
  "top_s (snd (arrangeShapesInOrder [''a'', ''b'', ''c''] ''horizontal_distribute'' thirds) ! 1)
     = dbl (- 9757799192636076) (- 51)
   \<and> height (snd (arrangeShapesInOrder [''a'', ''b'', ''c''] ''horizontal_distribute'' thirds) ! 1)
     = dnat 16
   \<and> dadd (dbl (- 9757799192636076) (- 51)) (ddiv (dnat 16) (dnat 2))
     = dbl 8256599316845908 (- 51)
   \<and> ddiv (sumCenterY thirds (orderedShapes_of thirds [''a'', ''b'', ''c''])) (dnat 3)
     = dbl 8256599316845909 (- 51)
   \<and> rval (dbl (- 9757799192636076) (- 51)) + rval (dnat 16) / 2 = 8256599316845908 / 2 ^ 51
   \<and> (8256599316845908 / 2 ^ 51 :: real) \<noteq> (1 + 9 + 1) / 3"
proof -
  let ?ord = "orderedShapes_of thirds [''a'', ''b'', ''c'']"
  let ?r = "snd (arrangeShapesInOrder [''a'', ''b'', ''c''] ''horizontal_distribute'' thirds)"
  have i: "1 \<in> set ?ord" unfolding thirds_ordered by simp
  have v: "1 < length thirds" by (simp add: thirds_def)
  have n': "\<not> length ?ord < 2" unfolding thirds_ordered by simp
  have "length [0::nat, 1, 2] = 3" by simp
  then have len: "dnat (length [0::nat, 1, 2]) = dnat 3" by (rule arg_cong)
  have h: "height (thirds ! 1) = dnat 16" by (simp add: thirds_def)
  have b: "dsub (dbl 8256599316845909 (- 51)) (ddiv (dnat 16) (dnat 2))
      = dbl (- 9757799192636076) (- 51)"
    by (simp add: dnat_dbl [of "- 51"] dbl_eval)
  have c: "dadd (dbl (- 9757799192636076) (- 51)) (ddiv (dnat 16) (dnat 2))
      = dbl 8256599316845908 (- 51)"
    by (simp add: dnat_dbl [of "- 51"] dbl_eval)
  have t: "top_s (?r ! 1) = dbl (- 9757799192636076) (- 51)"
    unfolding arrangeShapesInOrder_snd if_not_P [OF n'] arrange_positions_horizontal_distribute
      arrange_left_loop_top [OF i v]
    unfolding thirds_ordered len thirds_mean h b ..
  have hh: "height (?r ! 1) = dnat 16"
    unfolding arrangeShapesInOrder_snd if_not_P [OF n'] arrange_positions_horizontal_distribute
    using arrange_left_loop_frame [OF v] h by simp
  have m: "ddiv (sumCenterY thirds ?ord) (dnat 3) = dbl 8256599316845909 (- 51)"
    unfolding thirds_ordered by (rule thirds_mean)
  have e: "rval (dbl (- 9757799192636076) (- 51)) + rval (dnat 16) / 2
      = 8256599316845908 / 2 ^ 51"
    by (simp add: dnat_dbl [of 0] rval_dbl)
  have ne: "(8256599316845908 / 2 ^ 51 :: real) \<noteq> (1 + 9 + 1) / 3" by simp
  show ?thesis by (intro conjI t hh c m e ne)
qed




text \<open>
  Claim C8. The identifiers of the order that match no shape of the slide do not take
  part: the resolved shapes, and the slide after the call, are the ones of the order
  without these identifiers, for every mode. The warnings on the console are one
  "not found" for each such identifier, in the order of the list, and the call runs to its
  last message.
\<close>

theorem unresolved_identifiers_skipped:
  "orderedShapes_of s ids = orderedShapes_of s (filter (\<lambda>k. k \<in> id_s ` set s) ids)
   \<and> snd (arrangeShapesInOrder ids t s)
       = snd (arrangeShapesInOrder (filter (\<lambda>k. k \<in> id_s ` set s) ids) t s)
   \<and> filter is_warning (fst (arrangeShapesInOrder ids t s))
       = map WarnNotFound (filter (\<lambda>k. k \<notin> id_s ` set s) ids)
   \<and> last (fst (arrangeShapesInOrder ids t s))
       = Log (if length (orderedShapes_of s ids) < 2
              then ''Need at least 2 shapes to arrange'' else ''Arrangement complete'')"
proof -
  have "filter is_warning (map WarnNotFound ks) = map WarnNotFound ks" for ks
    by (induction ks) simp_all
  then show ?thesis
    by (simp add: arrangeShapesInOrder_snd arrangeShapesInOrder_fst orderedShapes_of_filter)
qed

end
